theory Spec2Isabelle
  imports Complex_Main "HOL-Library.Sublist" "HOL-Library.Word"
begin

section \<open>Paths, file names and the file system\<close>

text \<open>
  A path is the list of its components below the file-system root (\<open>pathlib.Path.parts\<close>
  without the anchor); \<open>p @ [n]\<close> is \<open>p / n\<close>, \<open>butlast p\<close> is \<open>p.parent\<close> and
  \<open>last p\<close> is \<open>p.name\<close>. Symbolic links are not modelled.
\<close>

type_synonym path = "string list"

type_synonym bytes = "8 word list"

datatype error =
    FileNotFoundError
  | FileExistsError
  | IsADirectoryError
  | NotADirectoryError
  | SameFileError
  | ValueError
  | OSError

definition lower_char :: "char \<Rightarrow> char" where
  "lower_char c =
     (let n = (of_char c :: nat) in if 65 \<le> n \<and> n \<le> 90 then char_of (n + 32) else c)"

text \<open>\<open>str.lower\<close> on ASCII letters.\<close>

definition lower :: "string \<Rightarrow> string" where
  "lower s = map lower_char s"

text \<open>\<open>str.endswith\<close>.\<close>

definition endswith :: "string \<Rightarrow> string \<Rightarrow> bool" where
  "endswith s sfx \<longleftrightarrow> length sfx \<le> length s \<and> drop (length s - length sfx) s = sfx"

text \<open>
  \<open>PurePath.suffix\<close> applied to a file name: with \<open>i = name.rfind('.')\<close>, the suffix is
  \<open>name[i:]\<close> when \<open>0 < i < len(name) - 1\<close> and the empty string otherwise.
\<close>

definition suffix_of :: "string \<Rightarrow> string" where
  "suffix_of name =
     (let ext = rev (takeWhile (\<lambda>c. c \<noteq> CHR ''.'') (rev name)) in
      if CHR ''.'' \<in> set name \<and> ext \<noteq> [] \<and> Suc (length ext) < length name
      then CHR ''.'' # ext else [])"

text \<open>
  \<open>PurePath.with_suffix\<close>: a path with an empty name raises \<open>ValueError\<close>; otherwise the old
  suffix (if any) is cut off the name and the new one appended.
\<close>

definition with_suffix :: "path \<Rightarrow> string \<Rightarrow> error + path" where
  "with_suffix p sfx =
     (if p = [] \<or> last p = [] then Inl ValueError
      else let name = last p; old_suffix = suffix_of name;
               name' = (if old_suffix = [] then name @ sfx
                        else take (length name - length old_suffix) name @ sfx)
           in Inr (butlast p @ [name']))"

text \<open>\<open>PurePath.relative_to\<close>: \<open>ValueError\<close> unless the path lies in the subtree of the root.\<close>

definition relative_to :: "path \<Rightarrow> path \<Rightarrow> error + path" where
  "relative_to p other = (if prefix other p then Inr (drop (length other) p) else Inl ValueError)"

text \<open>\<open>str(path)\<close> for an absolute POSIX path.\<close>

definition str_of_path :: "path \<Rightarrow> string" where
  "str_of_path p = (if p = [] then ''/'' else concat (map (\<lambda>c. ''/'' @ c) p))"

subsection \<open>Directory listings\<close>

text \<open>
  What \<open>os.walk\<close> and \<open>Path.iterdir\<close> see: a tree whose directories list their entries in the
  order the operating system returns them.
\<close>

datatype dirtree = FileEntry | DirEntry "(string \<times> dirtree) list"

fun is_dir_entry :: "dirtree \<Rightarrow> bool" where
  "is_dir_entry (DirEntry es) = True"
| "is_dir_entry FileEntry = False"

text \<open>
  \<open>os.walk(top)\<close>, top-down: the triple of the directory itself (its path, the names of its
  sub-directories, the names of its other entries), then the walk of each sub-directory in
  turn. A top that is not a directory yields nothing.
\<close>

fun os_walk :: "path \<Rightarrow> dirtree \<Rightarrow> (path \<times> string list \<times> string list) list" where
  "os_walk dir FileEntry = []"
| "os_walk dir (DirEntry es) =
     (dir, map fst (filter (\<lambda>e. is_dir_entry (snd e)) es),
           map fst (filter (\<lambda>e. \<not> is_dir_entry (snd e)) es))
     # concat (map (\<lambda>e. os_walk (dir @ [fst e]) (snd e)) (filter (\<lambda>e. is_dir_entry (snd e)) es))"

text \<open>\<open>list_pdfs\<close> (app.py, lines 45-54); the generator is the list of what it yields.\<close>

definition list_pdfs :: "path \<Rightarrow> dirtree \<Rightarrow> bool \<Rightarrow> error + path list" where
  "list_pdfs input_dir t recursive =
     (if recursive then
        Inr (concat (map (\<lambda>(dirpath, dirs, files).
               map (\<lambda>fn. dirpath @ [fn]) (filter (\<lambda>fn. endswith (lower fn) ''.pdf'') files))
             (os_walk input_dir t)))
      else case t of
          FileEntry \<Rightarrow> Inl NotADirectoryError
        | DirEntry es \<Rightarrow>
            Inr (map (\<lambda>e. input_dir @ [fst e])
                  (filter (\<lambda>e. \<not> is_dir_entry (snd e) \<and> lower (suffix_of (fst e)) = ''.pdf'') es)))"

subsection \<open>The file system\<close>

text \<open>
  The mutable file system the worker acts on: a partial map from paths to nodes. The root
  \<open>[]\<close> is always a directory. Permissions, links and time stamps are not modelled, so
  an operation fails only for the structural reasons written out below.
\<close>

datatype node = File bytes | Dir

type_synonym fs = "path \<Rightarrow> node option"

definition node_at :: "fs \<Rightarrow> path \<Rightarrow> node option" where
  "node_at f p = (if p = [] then Some Dir else f p)"

text \<open>
  \<open>Path.exists\<close>, \<open>Path.is_file\<close>, \<open>Path.is_dir\<close>. Here they never raise: the errors
  for which the operating system refuses to look a path up at all (a name longer than it
  allows, for one), which \<open>Path.exists\<close> passes on, are not modelled.
\<close>

definition exists :: "path \<Rightarrow> fs \<Rightarrow> bool" where
  "exists p f \<longleftrightarrow> node_at f p \<noteq> None"

definition is_file :: "path \<Rightarrow> fs \<Rightarrow> bool" where
  "is_file p f \<longleftrightarrow> (case node_at f p of Some (File b) \<Rightarrow> True | _ \<Rightarrow> False)"

definition is_dir :: "path \<Rightarrow> fs \<Rightarrow> bool" where
  "is_dir p f \<longleftrightarrow> node_at f p = Some Dir"

text \<open>The \<open>st_size\<close> a directory reports is platform dependent; 4096 is what ext4 gives.\<close>

definition dir_st_size :: int where
  "dir_st_size = 4096"

text \<open>\<open>Path.stat().st_size\<close>.\<close>

definition stat_size :: "path \<Rightarrow> fs \<Rightarrow> error + int" where
  "stat_size p f =
     (case node_at f p of
        None \<Rightarrow> Inl FileNotFoundError
      | Some (File b) \<Rightarrow> Inr (int (length b))
      | Some Dir \<Rightarrow> Inr dir_st_size)"

text \<open>\<open>Path.unlink\<close>.\<close>

definition unlink :: "path \<Rightarrow> fs \<Rightarrow> error + fs" where
  "unlink p f =
     (case node_at f p of
        None \<Rightarrow> Inl FileNotFoundError
      | Some Dir \<Rightarrow> Inl IsADirectoryError
      | Some (File b) \<Rightarrow> Inr (f(p := None)))"

text \<open>\<open>os.mkdir\<close>: the parent must be a directory and the path itself must be free.\<close>

definition os_mkdir :: "path \<Rightarrow> fs \<Rightarrow> error + fs" where
  "os_mkdir p f =
     (if p = [] then Inl FileExistsError
      else case node_at f (butlast p) of
          None \<Rightarrow> Inl FileNotFoundError
        | Some (File b) \<Rightarrow> Inl NotADirectoryError
        | Some Dir \<Rightarrow> (if f p \<noteq> None then Inl FileExistsError else Inr (f(p \<mapsto> Dir))))"

text \<open>
  \<open>Path.mkdir(parents=False, exist_ok=True)\<close>: an \<open>OSError\<close> other than
  \<open>FileNotFoundError\<close> is swallowed when the path is a directory already.
\<close>

definition mkdir_exist_ok :: "path \<Rightarrow> fs \<Rightarrow> error + fs" where
  "mkdir_exist_ok p f =
     (case os_mkdir p f of
        Inr f' \<Rightarrow> Inr f'
      | Inl FileNotFoundError \<Rightarrow> Inl FileNotFoundError
      | Inl e \<Rightarrow> if is_dir p f then Inr f else Inl e)"

text \<open>
  \<open>Path.mkdir(parents=True, exist_ok=True)\<close>, as pathlib writes it: try \<open>os.mkdir\<close>; when
  the parent is missing, make the parent first and try again. A call that raises returns no
  file system: the caller goes on with the one it had.
\<close>

function mkdir_parents :: "path \<Rightarrow> fs \<Rightarrow> error + fs" where
  "mkdir_parents p f =
     (case os_mkdir p f of
        Inr f' \<Rightarrow> Inr f'
      | Inl FileNotFoundError \<Rightarrow>
          (if p = [] then Inl FileNotFoundError
           else case mkdir_parents (butlast p) f of
                  Inl e \<Rightarrow> Inl e
                | Inr f' \<Rightarrow> mkdir_exist_ok p f')
      | Inl e \<Rightarrow> if is_dir p f then Inr f else Inl e)"
  by pat_completeness auto
termination
  by (relation "measure (\<lambda>(p, f). length p)") auto

declare mkdir_parents.simps [simp del]

text \<open>
  \<open>shutil.copy2(src, dst)\<close>: a destination that is a directory stands for the file of the
  source's name inside it; copying a file onto itself raises \<open>SameFileError\<close>; the source
  must be a regular file and the destination's directory must exist.
\<close>

definition copy2 :: "path \<Rightarrow> path \<Rightarrow> fs \<Rightarrow> error + fs" where
  "copy2 src dst f =
     (let dst' = (if is_dir dst f \<and> src \<noteq> [] then dst @ [last src] else dst) in
      if src = dst' \<and> exists src f then Inl SameFileError
      else case node_at f src of
          None \<Rightarrow> Inl FileNotFoundError
        | Some Dir \<Rightarrow> Inl IsADirectoryError
        | Some (File b) \<Rightarrow>
            (case node_at f (butlast dst') of
               None \<Rightarrow> Inl FileNotFoundError
             | Some (File c) \<Rightarrow> Inl NotADirectoryError
             | Some Dir \<Rightarrow>
                 (if is_dir dst' f then Inl IsADirectoryError
                  else Inr (f(dst' \<mapsto> File b)))))"

text \<open>
  \<open>Path.rename\<close> (POSIX \<open>rename(2)\<close>). A file replaces an existing file; a directory moves
  with everything below it. Replacing an existing directory by a directory is reported as
  \<open>OSError\<close> (the kernel allows it for an empty one, which a map cannot decide).
\<close>

definition rename :: "path \<Rightarrow> path \<Rightarrow> fs \<Rightarrow> error + fs" where
  "rename src dst f =
     (case node_at f src of
        None \<Rightarrow> Inl FileNotFoundError
      | Some (File b) \<Rightarrow>
          (case node_at f (butlast dst) of
             None \<Rightarrow> Inl FileNotFoundError
           | Some (File c) \<Rightarrow> Inl NotADirectoryError
           | Some Dir \<Rightarrow>
               (if is_dir dst f then Inl IsADirectoryError
                else Inr (f(src := None, dst \<mapsto> File b))))
      | Some Dir \<Rightarrow>
          (if src = [] \<or> strict_prefix src dst then Inl OSError
           else case node_at f (butlast dst) of
               None \<Rightarrow> Inl FileNotFoundError
             | Some (File c) \<Rightarrow> Inl NotADirectoryError
             | Some Dir \<Rightarrow>
                 (if is_file dst f then Inl NotADirectoryError
                  else if src = dst then Inr f
                  else if is_dir dst f then Inl OSError
                  else Inr (\<lambda>p. if prefix dst p then f (src @ drop (length dst) p)
                                 else if prefix src p then None else f p))))"

text \<open>\<open>if p.exists(): p.unlink()\<close> with nothing around it (app.py, lines 332-333 and 345-346).\<close>

definition unlink_if_exists :: "path \<Rightarrow> fs \<Rightarrow> error + fs" where
  "unlink_if_exists p f = (if exists p f then unlink p f else Inr f)"

text \<open>
  The worker's best-effort removal (app.py, lines 317-321, 359-363 and 369-373): the same
  two statements with \<open>try ... except Exception: pass\<close> around the \<open>unlink\<close>.
\<close>

definition unlink_quietly :: "path \<Rightarrow> fs \<Rightarrow> fs" where
  "unlink_quietly p f = (case unlink_if_exists p f of Inl e \<Rightarrow> f | Inr f' \<Rightarrow> f')"

section \<open>The program\<close>

subsection \<open>Constants and the external tool\<close>

definition GS_CANDIDATES :: "string list" where
  "GS_CANDIDATES = [''gswin64c'', ''gswin64c.exe'', ''gs'', ''gs.exe'']"




text \<open>
  What the program cannot decide by itself is a parameter:
  \<^item> \<open>subprocess_run cmd f\<close> is \<open>subprocess.run(cmd, capture_output=True, text=True)\<close> on the
    file system \<open>f\<close>: either the process cannot be started (an exception), or it exits with
    a return code, its two captured streams and the file system it leaves behind;
  \<^item> \<open>stop_is_set i\<close> and \<open>overwrite_get i\<close> are what \<open>self.stop_flag.is_set()\<close> and
    \<open>self.overwrite.get()\<close> return when the worker examines the \<open>i\<close>-th file (the control
    surface changes both while the worker runs);
  \<^item> \<open>which\<close> is \<open>shutil.which\<close>, \<open>resolve\<close> is \<open>Path.resolve\<close>, and \<open>listing p\<close> is the
    directory tree \<open>os.walk\<close> and \<open>Path.iterdir\<close> see at \<open>p\<close>.
\<close>

record env =
  subprocess_run :: "string list \<Rightarrow> fs \<Rightarrow> error + ((int \<times> string \<times> string) \<times> fs)"
  stop_is_set :: "nat \<Rightarrow> bool"
  overwrite_get :: "nat \<Rightarrow> bool"
  which :: "string \<Rightarrow> string option"
  resolve :: "path \<Rightarrow> error + path"
  listing :: "path \<Rightarrow> dirtree"

text \<open>\<open>find_ghostscript\<close> (app.py, lines 37-42).\<close>

fun first_found :: "(string \<Rightarrow> string option) \<Rightarrow> string list \<Rightarrow> string option" where
  "first_found wh [] = None"
| "first_found wh (name # names) =
     (case wh name of
        Some p \<Rightarrow> if p \<noteq> [] then Some p else first_found wh names
      | None \<Rightarrow> first_found wh names)"

definition find_ghostscript :: "env \<Rightarrow> string option" where
  "find_ghostscript ev = first_found (which ev) GS_CANDIDATES"

text \<open>\<open>safe_output_path\<close> (app.py, lines 57-62).\<close>

definition safe_output_path :: "path \<Rightarrow> path \<Rightarrow> path \<Rightarrow> fs \<Rightarrow> error + (path \<times> fs)" where
  "safe_output_path output_root input_root pdf_path f =
     (case relative_to pdf_path input_root of
        Inl e \<Rightarrow> Inl e
      | Inr rel \<Rightarrow>
          (let out_path = output_root @ rel in
           case mkdir_parents (butlast out_path) f of
             Inl e \<Rightarrow> Inl e
           | Inr f' \<Rightarrow> Inr (out_path, f')))"

text \<open>The command line of \<open>compress_pdf\<close> (app.py, lines 68-78).\<close>

definition gs_command :: "string \<Rightarrow> path \<Rightarrow> path \<Rightarrow> string \<Rightarrow> string list" where
  "gs_command gs_exe in_pdf out_pdf pdf_setting =
     [gs_exe,
      ''-sDEVICE=pdfwrite'',
      ''-dCompatibilityLevel=1.4'',
      ''-dPDFSETTINGS='' @ pdf_setting,
      ''-dNOPAUSE'',
      ''-dQUIET'',
      ''-dBATCH'',
      ''-sOutputFile='' @ str_of_path out_pdf,
      str_of_path in_pdf]"

text \<open>\<open>compress_pdf\<close> (app.py, lines 65-81).\<close>

definition compress_pdf ::
  "env \<Rightarrow> string \<Rightarrow> path \<Rightarrow> path \<Rightarrow> string \<Rightarrow> fs \<Rightarrow> error + ((int \<times> string \<times> string) \<times> fs)" where
  "compress_pdf ev gs_exe in_pdf out_pdf pdf_setting f =
     subprocess_run ev (gs_command gs_exe in_pdf out_pdf pdf_setting) f"

subsection \<open>The worker\<close>

text \<open>
  What the worker puts on \<open>self.log_q\<close>. A log line is kept as the values its text is
  formatted from (the formatting of sizes as megabytes and of the ratio as a percentage is
  not modelled).
\<close>

datatype log_msg =
    SkipMsg string
  | CopyMsg path int int
  | OkMsg path int int
  | FailWriteMsg string error
  | FailGsMsg string int
  | StderrMsg string

datatype event =
    Log log_msg
  | Progress nat
  | Done nat nat nat nat int int

text \<open>
  The worker's local variables, the queue it writes to and the world it acts on: the file
  system and the command lines handed to \<open>subprocess.run\<close> so far.
\<close>

record wstate =
  ok :: nat
  skipped :: nat
  failed :: nat
  total_in_bytes :: int
  total_out_bytes :: int
  log_q :: "event list"
  files :: fs
  invocations :: "string list list"

text \<open>
  A computation that may raise: \<open>Inl (e, s)\<close> is the exception \<open>e\<close> raised in state \<open>s\<close>
  (what was done before the raise stays done), \<open>Inr s\<close> is normal completion.
\<close>

type_synonym result = "(error \<times> wstate) + wstate"

text \<open>
  \<open>Path.name\<close> and \<open>str.strip\<close>. A character of the model is a code point below 256; the
  white space among these is what \<open>str.isspace\<close> accepts there: the codes 9 to 13, 28 to
  32, 133 (next line) and 160 (no-break space).
\<close>

definition name_of :: "path \<Rightarrow> string" where
  "name_of p = (if p = [] then [] else last p)"

definition is_space :: "char \<Rightarrow> bool" where
  "is_space c \<longleftrightarrow>
     (let n = (of_char c :: nat)
      in (9 \<le> n \<and> n \<le> 13) \<or> (28 \<le> n \<and> n \<le> 32) \<or> n = 133 \<or> n = 160)"

definition strip :: "string \<Rightarrow> string" where
  "strip s = rev (dropWhile is_space (rev (dropWhile is_space s)))"

definition put :: "event \<Rightarrow> wstate \<Rightarrow> wstate" where
  "put ev s = s\<lparr>log_q := log_q s @ [ev]\<rparr>"

text \<open>
  The body of the \<open>try\<close> of \<open>_worker\<close> (app.py, lines 326-355), statement by statement.
  The first branch is the copy-fallback, the second the promotion of the temporary file.
\<close>

definition worker_try :: "path \<Rightarrow> path \<Rightarrow> path \<Rightarrow> path \<Rightarrow> wstate \<Rightarrow> result" where
  "worker_try in_root pdf out_pdf tmp_out s =
     (case stat_size pdf (files s) of
        Inl e \<Rightarrow> Inl (e, s)
      | Inr in_size \<Rightarrow>
     (case stat_size tmp_out (files s) of
        Inl e \<Rightarrow> Inl (e, s)
      | Inr out_tmp_size \<Rightarrow>
     (let s1 = s\<lparr>total_in_bytes := total_in_bytes s + in_size\<rparr> in
      if out_tmp_size \<ge> in_size \<and> in_size > 0 then
        (case unlink_if_exists out_pdf (files s1) of
           Inl e \<Rightarrow> Inl (e, s1)
         | Inr f2 \<Rightarrow>
        (case copy2 pdf out_pdf f2 of
           Inl e \<Rightarrow> Inl (e, s1\<lparr>files := f2\<rparr>)
         | Inr f3 \<Rightarrow>
        (case unlink tmp_out f3 of
           Inl e \<Rightarrow> Inl (e, s1\<lparr>files := f3\<rparr>)
         | Inr f4 \<Rightarrow>
        (let s2 = s1\<lparr>files := f4, total_out_bytes := total_out_bytes s1 + in_size\<rparr> in
         case relative_to pdf in_root of
           Inl e \<Rightarrow> Inl (e, s2)
         | Inr rel \<Rightarrow>
             (let s3 = put (Log (CopyMsg rel out_tmp_size in_size)) s2
              in Inr (s3\<lparr>ok := ok s3 + 1\<rparr>))))))
      else
        (case unlink_if_exists out_pdf (files s1) of
           Inl e \<Rightarrow> Inl (e, s1)
         | Inr f2 \<Rightarrow>
        (case rename tmp_out out_pdf f2 of
           Inl e \<Rightarrow> Inl (e, s1\<lparr>files := f2\<rparr>)
         | Inr f3 \<Rightarrow>
        (case stat_size out_pdf f3 of
           Inl e \<Rightarrow> Inl (e, s1\<lparr>files := f3\<rparr>)
         | Inr out_size \<Rightarrow>
        (let s2 = s1\<lparr>files := f3, total_out_bytes := total_out_bytes s1 + out_size\<rparr> in
         case relative_to pdf in_root of
           Inl e \<Rightarrow> Inl (e, s2)
         | Inr rel \<Rightarrow>
             (let s3 = put (Log (OkMsg rel in_size out_size)) s2
              in Inr (s3\<lparr>ok := ok s3 + 1\<rparr>)))))))))"

text \<open>
  What follows the invocation (app.py, lines 324-373): the test of the result, the \<open>try\<close>
  with its handler, and the branch for a failed invocation.
\<close>

definition after_invocation ::
  "path \<Rightarrow> path \<Rightarrow> path \<Rightarrow> path \<Rightarrow> int \<Rightarrow> string \<Rightarrow> wstate \<Rightarrow> result" where
  "after_invocation in_root pdf out_pdf tmp_out rc err s =
     (case (if rc = 0 \<and> exists tmp_out (files s)
            then (case stat_size tmp_out (files s) of
                    Inl e \<Rightarrow> Inl e
                  | Inr st_size \<Rightarrow> Inr (st_size > 0))
            else Inr False) of
        Inl e \<Rightarrow> Inl (e, s)
      | Inr True \<Rightarrow>
          (case worker_try in_root pdf out_pdf tmp_out s of
             Inr s' \<Rightarrow> Inr s'
           | Inl (e, s') \<Rightarrow>
               (let s1 = s'\<lparr>failed := failed s' + 1\<rparr>;
                    s2 = put (Log (FailWriteMsg (name_of pdf) e)) s1
                in Inr (s2\<lparr>files := unlink_quietly tmp_out (files s2)\<rparr>)))
      | Inr False \<Rightarrow>
          (let s1 = s\<lparr>failed := failed s + 1\<rparr>;
               s2 = put (Log (FailGsMsg (name_of pdf) rc)) s1;
               s3 = (if err \<noteq> [] then put (Log (StderrMsg (take 500 (strip err)))) s2 else s2)
           in Inr (s3\<lparr>files := unlink_quietly tmp_out (files s3)\<rparr>)))"

text \<open>One turn of the loop of \<open>_worker\<close> after the stop check (app.py, lines 307-375).\<close>

definition worker_file ::
  "env \<Rightarrow> path \<Rightarrow> path \<Rightarrow> string \<Rightarrow> string \<Rightarrow> nat \<Rightarrow> path \<Rightarrow> wstate \<Rightarrow> result" where
  "worker_file ev in_root out_dir gs preset i pdf s =
     (case safe_output_path out_dir in_root pdf (files s) of
        Inl e \<Rightarrow> Inl (e, s)
      | Inr (out_pdf, f1) \<Rightarrow>
     (let s1 = s\<lparr>files := f1\<rparr> in
      if exists out_pdf f1 \<and> \<not> overwrite_get ev i then
        Inr (put (Log (SkipMsg (name_of pdf))) (put (Progress i) (s1\<lparr>skipped := skipped s1 + 1\<rparr>)))
      else
     (case with_suffix out_pdf ''.tmp.pdf'' of
        Inl e \<Rightarrow> Inl (e, s1)
      | Inr tmp_out \<Rightarrow>
     (let s2 = s1\<lparr>files := unlink_quietly tmp_out f1,
                  invocations := invocations s1 @ [gs_command gs pdf tmp_out preset]\<rparr> in
      case compress_pdf ev gs pdf tmp_out preset (files s2) of
        Inl e \<Rightarrow> Inl (e, s2)
      | Inr ((rc, out, err), f3) \<Rightarrow>
          (case after_invocation in_root pdf out_pdf tmp_out rc err (s2\<lparr>files := f3\<rparr>) of
             Inl x \<Rightarrow> Inl x
           | Inr s4 \<Rightarrow> Inr (put (Progress i) s4))))))"

text \<open>
  The \<open>for\<close> loop of \<open>_worker\<close> (app.py, lines 303-375); \<open>i\<close> is the index \<open>enumerate\<close>
  gives the first remaining file.
\<close>

fun worker_loop ::
  "env \<Rightarrow> path \<Rightarrow> path \<Rightarrow> string \<Rightarrow> string \<Rightarrow> nat \<Rightarrow> path list \<Rightarrow> wstate \<Rightarrow> result" where
  "worker_loop ev in_root out_dir gs preset i [] s = Inr s"
| "worker_loop ev in_root out_dir gs preset i (pdf # pdfs) s =
     (if stop_is_set ev i then Inr s
      else case worker_file ev in_root out_dir gs preset i pdf s of
          Inl x \<Rightarrow> Inl x
        | Inr s' \<Rightarrow> worker_loop ev in_root out_dir gs preset (Suc i) pdfs s')"

text \<open>
  \<open>_worker\<close> (app.py, lines 296-378). An exception that leaves the loop ends the thread:
  no summary is put on the queue.
\<close>

definition worker ::
  "env \<Rightarrow> path \<Rightarrow> path \<Rightarrow> string \<Rightarrow> path list \<Rightarrow> string \<Rightarrow> fs \<Rightarrow> result" where
  "worker ev in_root out_dir gs pdfs preset f =
     (let s0 = \<lparr>ok = 0, skipped = 0, failed = 0, total_in_bytes = 0, total_out_bytes = 0,
                log_q = [], files = f, invocations = []\<rparr> in
      case worker_loop ev in_root out_dir gs preset 1 pdfs s0 of
        Inl x \<Rightarrow> Inl x
      | Inr s \<Rightarrow>
          (let total_saved = max (total_in_bytes s - total_out_bytes s) 0
           in Inr (put (Done (ok s) (skipped s) (failed s) (length pdfs) total_saved
                         (total_in_bytes s)) s)))"

text \<open>
  The \<open>done\<close> branch of \<open>_poll_log_queue\<close> (app.py, lines 397-405): the two lines it logs,
  the second either the saving in megabytes with its share of the input or "n/a". The
  divisions are exact here, where Python's are floating point.
\<close>

datatype space_saved = Saved rat rat | NotApplicable

definition poll_done :: "event \<Rightarrow> ((nat \<times> nat \<times> nat \<times> nat) \<times> space_saved) option" where
  "poll_done ev =
     (case ev of
        Done n_ok n_skipped n_failed n_total saved total_in \<Rightarrow>
          Some ((n_ok, n_skipped, n_failed, n_total),
                (if total_in > 0 then
                   (let saved_mb = of_int saved / 1000000;
                        saved_pct = (if total_in \<noteq> 0 then of_int saved / of_int total_in else 0)
                    in Saved saved_mb saved_pct)
                 else NotApplicable))
      | _ \<Rightarrow> None)"

subsection \<open>The control surface: validation and start\<close>

text \<open>
  \<open>Path(text)\<close>: the components between the separators, empty ones and \<open>.\<close> dropped. A
  relative path is read from the root (the working directory is not modelled), and \<open>..\<close> is
  kept as a name like any other, as pathlib keeps it: the file system of the model looks it
  up as written, where the operating system would step to the parent.
\<close>

fun split_slash :: "string \<Rightarrow> string list" where
  "split_slash [] = [[]]"
| "split_slash (c # cs) =
     (if c = CHR ''/'' then [] # split_slash cs
      else (case split_slash cs of
              w # ws \<Rightarrow> (c # w) # ws
            | [] \<Rightarrow> [[c]]))"

definition Path :: "string \<Rightarrow> path" where
  "Path s = filter (\<lambda>c. c \<noteq> [] \<and> c \<noteq> ''.'') (split_slash s)"

text \<open>
  The variables of \<open>App\<close> the model needs (\<open>self.overwrite\<close> and \<open>self.stop_flag\<close> are read
  by the running worker and live in \<open>env\<close>); \<open>worker_alive\<close> is
  \<open>self.worker_thread and self.worker_thread.is_alive()\<close>. The widgets and the text of the
  log window are outside the model.
\<close>

record app =
  input_dir :: string
  output_dir :: string
  recursive :: bool
  gs_path :: string
  preset_choice :: string
  worker_alive :: bool

text \<open>The five error boxes of \<open>_validate\<close>, each followed by \<open>return None\<close>.\<close>

datatype validate_error =
    InvalidInput
  | NotAPdf
  | InvalidFolder
  | InvalidOutput
  | GhostscriptNotFound

text \<open>
  The Ghostscript check of \<open>_validate\<close> (app.py, lines 233-241): an empty or dangling entry
  is replaced by what \<open>find_ghostscript\<close> finds, if anything.
\<close>

definition choose_gs :: "env \<Rightarrow> app \<Rightarrow> fs \<Rightarrow> validate_error + (string \<times> app)" where
  "choose_gs ev a f =
     (let gs = strip (gs_path a) in
      if gs = [] \<or> \<not> exists (Path gs) f
      then (case find_ghostscript ev of
              Some gs2 \<Rightarrow> Inr (gs2, a\<lparr>gs_path := gs2\<rparr>)
            | None \<Rightarrow> Inl GhostscriptNotFound)
      else Inr (gs, a))"

text \<open>
  The \<open>try\<close> at the end of \<open>_validate\<close> (app.py, lines 243-252). The local \<open>out_dir\<close> is
  rebound before \<open>mkdir\<close> runs, so a failing \<open>mkdir\<close> (swallowed by the handler) still leaves
  the redirected folder as the result; only \<open>self.output_dir\<close> keeps its old text. A
  \<open>resolve\<close> that raises leaves everything as it was.
\<close>

definition avoid_input_root ::
  "env \<Rightarrow> path \<Rightarrow> bool \<Rightarrow> path \<Rightarrow> app \<Rightarrow> fs \<Rightarrow> path \<times> app \<times> fs" where
  "avoid_input_root ev in_path is_f out_dir a f =
     (let comp_target = (if \<not> is_f then in_path else butlast in_path) in
      case resolve ev comp_target of
        Inl e \<Rightarrow> (out_dir, a, f)
      | Inr resolved_target \<Rightarrow>
     (case resolve ev out_dir of
        Inl e \<Rightarrow> (out_dir, a, f)
      | Inr resolved_out \<Rightarrow>
          if resolved_target = resolved_out then
            (let out_dir' = comp_target @ [''_compressed''] in
             case mkdir_parents out_dir' f of
               Inl e \<Rightarrow> (out_dir', a, f)
             | Inr f' \<Rightarrow> (out_dir', a\<lparr>output_dir := str_of_path out_dir'\<rparr>, f'))
          else (out_dir, a, f)))"

text \<open>\<open>_validate\<close> (app.py, lines 214-254).\<close>

definition validate ::
  "env \<Rightarrow> app \<Rightarrow> fs \<Rightarrow> validate_error + ((path \<times> path \<times> string \<times> bool) \<times> app \<times> fs)" where
  "validate ev a f =
     (let in_path = Path (strip (input_dir a));
          out_dir = Path (strip (output_dir a))
      in
      if \<not> exists in_path f then Inl InvalidInput
      else
       (let is_f = is_file in_path f in
        if is_f \<and> lower (suffix_of (name_of in_path)) \<noteq> ''.pdf'' then Inl NotAPdf
        else if \<not> is_f \<and> \<not> is_dir in_path f then Inl InvalidFolder
        else if \<not> is_dir out_dir f then Inl InvalidOutput
        else
         (case choose_gs ev a f of
            Inl e \<Rightarrow> Inl e
          | Inr (gs, a1) \<Rightarrow>
              (case avoid_input_root ev in_path is_f out_dir a1 f of
                 (out_dir', a2, f') \<Rightarrow> Inr ((in_path, out_dir', gs, is_f), a2, f')))))"




text \<open>The state a computation ends in, raised or not.\<close>

definition final_state :: "result \<Rightarrow> wstate" where
  "final_state r = (case r of Inl (e, s) \<Rightarrow> s | Inr s \<Rightarrow> s)"

text \<open>
  The reference notion for the enumeration: \<open>file_beneath t p\<close> holds when the relative
  path \<open>p\<close> leads from the directory \<open>t\<close> to an entry that is not a directory.
\<close>

inductive file_beneath :: "dirtree \<Rightarrow> path \<Rightarrow> bool" where
  child: "(n, e) \<in> set es \<Longrightarrow> \<not> is_dir_entry e \<Longrightarrow> file_beneath (DirEntry es) [n]"
| below: "(n, e) \<in> set es \<Longrightarrow> file_beneath e p \<Longrightarrow> file_beneath (DirEntry es) (n # p)"

subsection \<open>Outcomes, read off the queue\<close>

text \<open>
  The specification's Outcome of a job: compressed (with the input's and the output's
  size), original copied (with the input's size), skipped, or failed. The worker does not
  build such a value; it queues one log line per job, and \<open>outcome_of\<close> reads the outcome
  off that line. The other events (the standard error excerpt, progress, the summary)
  carry no outcome.
\<close>

datatype outcome = Compressed int int | CopiedOriginal int | Skipped | Failed

fun outcome_of :: "event \<Rightarrow> outcome option" where
  "outcome_of (Log (OkMsg rel in_size out_size)) = Some (Compressed in_size out_size)"
| "outcome_of (Log (CopyMsg rel out_tmp_size in_size)) = Some (CopiedOriginal in_size)"
| "outcome_of (Log (SkipMsg n)) = Some Skipped"
| "outcome_of (Log (FailWriteMsg n e)) = Some Failed"
| "outcome_of (Log (FailGsMsg n rc)) = Some Failed"
| "outcome_of (Log (StderrMsg t)) = None"
| "outcome_of (Progress i) = None"
| "outcome_of (Done a b c d e f) = None"

fun outcomes :: "event list \<Rightarrow> outcome list" where
  "outcomes [] = []"
| "outcomes (e # es) = (case outcome_of e of None \<Rightarrow> outcomes es | Some oc \<Rightarrow> oc # outcomes es)"

fun succeeded :: "outcome \<Rightarrow> bool" where
  "succeeded (Compressed i j) = True"
| "succeeded (CopiedOriginal i) = True"
| "succeeded Skipped = False"
| "succeeded Failed = False"

fun input_bytes :: "outcome \<Rightarrow> int" where
  "input_bytes (Compressed i j) = i"
| "input_bytes (CopiedOriginal i) = i"
| "input_bytes Skipped = 0"
| "input_bytes Failed = 0"

fun output_bytes :: "outcome \<Rightarrow> int" where
  "output_bytes (Compressed i j) = j"
| "output_bytes (CopiedOriginal i) = i"
| "output_bytes Skipped = 0"
| "output_bytes Failed = 0"

text \<open>The line the handler of the \<open>try\<close> queues: the promotion of a result raised.\<close>

fun promotion_raised :: "event \<Rightarrow> bool" where
  "promotion_raised (Log (FailWriteMsg n e)) = True"
| "promotion_raised ev = False"

text \<open>
  How many of \<open>n\<close> files the loop handles before it sees the stop flag set: the indices
  \<open>1, 2, ...\<close> up to the first one at which \<open>stop_is_set\<close> holds.
\<close>

definition handled_before_stop :: "env \<Rightarrow> nat \<Rightarrow> nat" where
  "handled_before_stop ev n = length (takeWhile (\<lambda>i. \<not> stop_is_set ev i) [1..<Suc n])"

text \<open>
  \<open>tallied s evs s'\<close>: from \<open>s\<close> to \<open>s'\<close> the events \<open>evs\<close> were queued, and the counters and
  byte totals moved by what the outcomes among \<open>evs\<close> say. The input total is tied to the
  outcomes only when no promotion raised: the \<open>try\<close> adds the input's size before it
  touches the files, and its handler does not take it back.
\<close>

definition tallied :: "wstate \<Rightarrow> event list \<Rightarrow> wstate \<Rightarrow> bool" where
  "tallied s evs s' \<longleftrightarrow>
     log_q s' = log_q s @ evs
     \<and> ok s' = ok s + length (filter succeeded (outcomes evs))
     \<and> skipped s' = skipped s + length (filter (\<lambda>oc. oc = Skipped) (outcomes evs))
     \<and> failed s' = failed s + length (filter (\<lambda>oc. oc = Failed) (outcomes evs))
     \<and> total_out_bytes s' = total_out_bytes s + sum_list (map output_bytes (outcomes evs))
     \<and> (\<not> list_ex promotion_raised evs \<longrightarrow>
           total_in_bytes s' = total_in_bytes s + sum_list (map input_bytes (outcomes evs)))"

subsection \<open>The byte totals, job by job\<close>

text \<open>
  What each job owes the two byte totals, written from the rule rather than from the
  worker's counters. \<open>result_test\<close> is the test of app.py, line 324, on what an invocation
  returned: exit code 0 and a temporary output that exists and is not empty.
\<close>

definition result_test :: "int \<Rightarrow> path \<Rightarrow> fs \<Rightarrow> bool" where
  "result_test rc tmp_out f \<longleftrightarrow>
     rc = 0 \<and> exists tmp_out f \<and> (case stat_size tmp_out f of Inl e \<Rightarrow> False | Inr n \<Rightarrow> n > 0)"

text \<open>
  The input bytes a job is due: the size of the input file, as it is when the tool has
  returned, for a job that is not skipped and whose invocation passes \<open>result_test\<close>;
  nothing for any other job (nothing either when the input file is no longer there to be
  measured).
\<close>

definition input_bytes_due ::
  "env \<Rightarrow> path \<Rightarrow> path \<Rightarrow> string \<Rightarrow> string \<Rightarrow> nat \<Rightarrow> path \<Rightarrow> wstate \<Rightarrow> int" where
  "input_bytes_due ev in_root out_dir gs preset i pdf s =
     (case safe_output_path out_dir in_root pdf (files s) of
        Inl e \<Rightarrow> 0
      | Inr (out_pdf, f1) \<Rightarrow>
          if exists out_pdf f1 \<and> \<not> overwrite_get ev i then 0
          else (case with_suffix out_pdf ''.tmp.pdf'' of
                  Inl e \<Rightarrow> 0
                | Inr tmp_out \<Rightarrow>
                    (case compress_pdf ev gs pdf tmp_out preset (unlink_quietly tmp_out f1) of
                       Inl e \<Rightarrow> 0
                     | Inr ((rc, out, err), f3) \<Rightarrow>
                         if result_test rc tmp_out f3
                         then (case stat_size pdf f3 of Inl e \<Rightarrow> 0 | Inr in_size \<Rightarrow> in_size)
                         else 0)))"

text \<open>
  The output bytes a job is due: the size of what lies at the mapped output path when the
  job is over, for a job that ends succeeded (the counter of successes has moved); nothing
  for any other job.
\<close>

definition output_bytes_due ::
  "env \<Rightarrow> path \<Rightarrow> path \<Rightarrow> string \<Rightarrow> string \<Rightarrow> nat \<Rightarrow> path \<Rightarrow> wstate \<Rightarrow> int" where
  "output_bytes_due ev in_root out_dir gs preset i pdf s =
     (case worker_file ev in_root out_dir gs preset i pdf s of
        Inl x \<Rightarrow> 0
      | Inr s' \<Rightarrow>
          if ok s' = ok s then 0
          else (case safe_output_path out_dir in_root pdf (files s) of
                  Inl e \<Rightarrow> 0
                | Inr (out_pdf, f1) \<Rightarrow>
                    (case stat_size out_pdf (files s') of Inl e \<Rightarrow> 0 | Inr out_size \<Rightarrow> out_size)))"

text \<open>
  The jobs of a run in order, each with the input bytes and the output bytes it is due:
  one entry for every file the loop takes up, the one at which an exception ends the run
  included.
\<close>

fun bytes_due ::
  "env \<Rightarrow> path \<Rightarrow> path \<Rightarrow> string \<Rightarrow> string \<Rightarrow> nat \<Rightarrow> path list \<Rightarrow> wstate \<Rightarrow> (int \<times> int) list" where
  "bytes_due ev in_root out_dir gs preset i [] s = []"
| "bytes_due ev in_root out_dir gs preset i (pdf # pdfs) s =
     (if stop_is_set ev i then []
      else (input_bytes_due ev in_root out_dir gs preset i pdf s,
            output_bytes_due ev in_root out_dir gs preset i pdf s)
           # (case worker_file ev in_root out_dir gs preset i pdf s of
                Inl x \<Rightarrow> []
              | Inr s' \<Rightarrow> bytes_due ev in_root out_dir gs preset (Suc i) pdfs s'))"

text \<open>The state \<open>_worker\<close> starts from (app.py, lines 297-301).\<close>

definition fresh_state :: "fs \<Rightarrow> wstate" where
  "fresh_state f =
     \<lparr>ok = 0, skipped = 0, failed = 0, total_in_bytes = 0, total_out_bytes = 0,
      log_q = [], files = f, invocations = []\<rparr>"

subsection \<open>A small world for the examples\<close>

text \<open>
  An input folder with five PDF files, one of them in a sub-folder and one named just
  \<open>.pdf\<close>, a folder whose name ends in \<open>.PDF\<close>, and an output folder that already holds a
  result for \<open>c.pdf\<close>. The example tool shrinks \<open>a.pdf\<close> from five bytes to two, turns the
  two bytes of \<open>sub/b.pdf\<close> into three, and fails on anything else. \<open>ex_tree\<close> is the
  listing of the input folder.
\<close>

definition ex_fs :: fs where
  "ex_fs =
     [[''in''] \<mapsto> Dir,
      [''in'', ''a.pdf''] \<mapsto> File [1, 2, 3, 4, 5],
      [''in'', ''sub''] \<mapsto> Dir,
      [''in'', ''sub'', ''b.pdf''] \<mapsto> File [1, 2],
      [''in'', ''c.pdf''] \<mapsto> File [1, 2, 3],
      [''in'', ''d.pdf''] \<mapsto> File [1],
      [''in'', ''.pdf''] \<mapsto> File [4, 2],
      [''in'', ''e.PDF''] \<mapsto> Dir,
      [''in'', ''sub'', ''notes.txt''] \<mapsto> File [8],
      [''out''] \<mapsto> Dir,
      [''out'', ''sub''] \<mapsto> Dir,
      [''out'', ''c.pdf''] \<mapsto> File [9],
      [''usr''] \<mapsto> Dir,
      [''usr'', ''gs''] \<mapsto> File [0]]"

definition ex_tree :: dirtree where
  "ex_tree =
     DirEntry [(''a.pdf'', FileEntry),
               (''sub'', DirEntry [(''b.pdf'', FileEntry), (''notes.txt'', FileEntry)]),
               (''c.pdf'', FileEntry),
               (''d.pdf'', FileEntry),
               (''.pdf'', FileEntry),
               (''e.PDF'', DirEntry [])]"

definition ex_run :: "string list \<Rightarrow> fs \<Rightarrow> error + ((int \<times> string \<times> string) \<times> fs)" where
  "ex_run cmd f =
     (if last cmd = ''/in/a.pdf''
      then Inr ((0, [], []), f([''out'', ''a.tmp.pdf''] \<mapsto> File [7, 7]))
      else if last cmd = ''/in/sub/b.pdf''
      then Inr ((0, [], []), f([''out'', ''sub'', ''b.tmp.pdf''] \<mapsto> File [7, 7, 7]))
      else Inr ((1, [], '' no input ''), f))"

definition ex_env :: env where
  "ex_env =
     \<lparr>subprocess_run = ex_run,
      stop_is_set = (\<lambda>i. False),
      overwrite_get = (\<lambda>i. False),
      which = (\<lambda>n. if n = ''gs'' then Some ''/usr/gs'' else None),
      resolve = Inr,
      listing = (\<lambda>p. if p = [''in''] then ex_tree else FileEntry)\<rparr>"

definition ex_state :: wstate where
  "ex_state =
     \<lparr>ok = 0, skipped = 0, failed = 0, total_in_bytes = 0, total_out_bytes = 0,
      log_q = [], files = ex_fs, invocations = []\<rparr>"

text \<open>
  The form as a user may leave it: the output folder is the input folder written another
  way, and the preset entry holds a text that is none of the five labels.
\<close>

definition ex_app :: app where
  "ex_app =
     \<lparr>input_dir = '' /in '', output_dir = ''/in/'', recursive = True, gs_path = ''/usr/gs'',
      preset_choice = ''Custom'', worker_alive = False\<rparr>"

text \<open>What \<open>list_pdfs\<close> yields for the example folder, sub-folders included.\<close>

definition ex_pdfs :: "path list" where
  "ex_pdfs =
     [[''in'', ''a.pdf''], [''in'', ''c.pdf''], [''in'', ''d.pdf''], [''in'', ''.pdf''],
      [''in'', ''sub'', ''b.pdf'']]"

text \<open>The same surroundings with the stop button pressed while the second file is handled.\<close>

definition ex_env_stop :: env where
  "ex_env_stop = ex_env\<lparr>stop_is_set := (\<lambda>i. 3 \<le> i)\<rparr>"

text \<open>
  The same surroundings with the overwrite box ticked, and an output folder in which
  directories sit where the results of \<open>a.pdf\<close> and \<open>sub/b.pdf\<close> are to go.
\<close>

definition ex_env_overwrite :: env where
  "ex_env_overwrite = ex_env\<lparr>overwrite_get := (\<lambda>i. True)\<rparr>"

definition ex_fs_blocked :: fs where
  "ex_fs_blocked = ex_fs([''out'', ''a.pdf''] \<mapsto> Dir, [''out'', ''sub'', ''b.pdf''] \<mapsto> Dir)"

text \<open>
  A run whose output root is the input root itself (what the worker is handed when
  \<open>resolve\<close> raises during validation and the two texts name the same folder): the tool
  writes its temporary files beside the inputs.
\<close>

definition ex_run_in_place :: "string list \<Rightarrow> fs \<Rightarrow> error + ((int \<times> string \<times> string) \<times> fs)" where
  "ex_run_in_place cmd f =
     (if last cmd = ''/in/a.pdf''
      then Inr ((0, [], []), f([''in'', ''a.tmp.pdf''] \<mapsto> File [7, 7]))
      else if last cmd = ''/in/sub/b.pdf''
      then Inr ((0, [], []), f([''in'', ''sub'', ''b.tmp.pdf''] \<mapsto> File [7, 7, 7]))
      else Inr ((1, [], '' no input ''), f))"

definition ex_env_in_place :: env where
  "ex_env_in_place = ex_env\<lparr>subprocess_run := ex_run_in_place, overwrite_get := (\<lambda>i. True)\<rparr>"

text \<open>An output folder in which a regular file has the name of the input's sub-folder.\<close>

definition ex_fs_no_sub :: fs where
  "ex_fs_no_sub = ex_fs([''out'', ''sub''] \<mapsto> File [0])"

section \<open>Properties\<close>

text \<open>The definitions that evaluating an example unfolds.\<close>

lemmas ex_simps = ex_fs_def ex_run_def ex_env_def ex_state_def
lemmas fs_simps = node_at_def exists_def is_file_def is_dir_def stat_size_def unlink_def
  unlink_if_exists_def unlink_quietly_def os_mkdir_def mkdir_exist_ok_def copy2_def rename_def
lemmas path_simps = relative_to_def with_suffix_def suffix_of_def str_of_path_def name_of_def

lemmas worker_simps = worker_def worker_file_def after_invocation_def worker_try_def
  safe_output_path_def compress_pdf_def gs_command_def put_def Let_def final_state_def

lemmas ex2_simps = ex_env_overwrite_def ex_fs_blocked_def ex_run_in_place_def ex_env_in_place_def
  ex_fs_no_sub_def fresh_state_def


subsection \<open>File names\<close>

lemma lower_char_range:
  "of_char (lower_char c) = (if 65 \<le> (of_char c :: nat) \<and> (of_char c :: nat) \<le> 90 then of_char c + 32 else (of_char c :: nat))"
  by (simp add: lower_char_def Let_def)

lemma lower_char_dot [simp]: "lower_char c = CHR ''.'' \<longleftrightarrow> c = CHR ''.''"
proof
  assume a: "lower_char c = CHR ''.''"
  have "(of_char (lower_char c) :: nat) = 46" unfolding a by simp
  then have "(of_char c :: nat) = 46"
    by (simp add: lower_char_range split: if_splits)
  then have "(of_char c :: nat) = of_char CHR ''.''" by simp
  then show "c = CHR ''.''" by (simp only: of_char_eq_iff)
next
  assume "c = CHR ''.''"
  then show "lower_char c = CHR ''.''" by (simp add: lower_char_def)
qed

lemma lower_char_not_dot: "lower_char c = x \<Longrightarrow> x \<noteq> CHR ''.'' \<Longrightarrow> c \<noteq> CHR ''.''"
  by auto

lemma suffix_of_split:
  assumes "suffix_of n \<noteq> []"
  shows "\<exists>stem ext. n = stem @ CHR ''.'' # ext \<and> suffix_of n = CHR ''.'' # ext
           \<and> CHR ''.'' \<notin> set ext \<and> ext \<noteq> [] \<and> stem \<noteq> []"
proof -
  define ext where "ext = rev (takeWhile (\<lambda>c. c \<noteq> CHR ''.'') (rev n))"
  from assms have c: "CHR ''.'' \<in> set n" "ext \<noteq> []" "Suc (length ext) < length n"
    and s: "suffix_of n = CHR ''.'' # ext"
    by (auto simp: suffix_of_def Let_def ext_def split: if_splits)
  have "rev n = takeWhile (\<lambda>c. c \<noteq> CHR ''.'') (rev n) @ dropWhile (\<lambda>c. c \<noteq> CHR ''.'') (rev n)"
    by simp
  moreover from c(1) have "dropWhile (\<lambda>c. c \<noteq> CHR ''.'') (rev n) \<noteq> []"
    by (simp add: dropWhile_eq_Nil_conv)
  then obtain r where r: "dropWhile (\<lambda>c. c \<noteq> CHR ''.'') (rev n) = CHR ''.'' # r"
    using hd_dropWhile[of "\<lambda>c. c \<noteq> CHR ''.''" "rev n"]
    by (cases "dropWhile (\<lambda>c. c \<noteq> CHR ''.'') (rev n)") auto
  ultimately have "rev n = rev ext @ CHR ''.'' # r" by (simp add: ext_def)
  then have "rev (rev n) = rev (rev ext @ CHR ''.'' # r)" by simp
  then have n: "n = rev r @ CHR ''.'' # ext" by simp
  have nd: "CHR ''.'' \<notin> set ext"
    unfolding ext_def by (auto dest: set_takeWhileD)
  from n c(3) have "rev r \<noteq> []" by auto
  with n s nd c(2) show ?thesis by blast
qed

lemma suffix_of_decompose:
  assumes "CHR ''.'' \<notin> set ext" "ext \<noteq> []" "stem \<noteq> []"
  shows "suffix_of (stem @ CHR ''.'' # ext) = CHR ''.'' # ext"
proof -
  have tw: "CHR ''.'' \<notin> set xs \<Longrightarrow> takeWhile (\<lambda>c. c \<noteq> CHR ''.'') (xs @ CHR ''.'' # ys) = xs"
    for xs ys :: string
    by (induction xs) auto
  from assms(1) have "takeWhile (\<lambda>c. c \<noteq> CHR ''.'') (rev ext @ CHR ''.'' # rev stem) = rev ext"
    by (intro tw) simp
  with assms show ?thesis
    by (simp add: suffix_of_def Let_def)
qed

lemma pdf_suffix_iff:
  "lower (suffix_of n) = ''.pdf'' \<longleftrightarrow> endswith (lower n) ''.pdf'' \<and> 4 < length n"
proof
  assume a: "lower (suffix_of n) = ''.pdf''"
  then have "suffix_of n \<noteq> []" by (auto simp: lower_def)
  from suffix_of_split[OF this] obtain stem ext where
    n: "n = stem @ CHR ''.'' # ext" "suffix_of n = CHR ''.'' # ext" "stem \<noteq> []"
    by blast
  with a have "lower ext = ''pdf''" by (simp add: lower_def)
  then have "length ext = 3" "lower n = lower stem @ ''.pdf''"
    using n(1) by (auto simp: lower_def)
  with n show "endswith (lower n) ''.pdf'' \<and> 4 < length n"
    by (cases stem) (auto simp: endswith_def lower_def)
next
  assume a: "endswith (lower n) ''.pdf'' \<and> 4 < length n"
  then have d: "drop (length n - 4) (lower n) = ''.pdf''" and l: "4 < length n"
    by (simp_all add: endswith_def lower_def eval_nat_numeral)
  define stem where "stem = take (length n - 4) n"
  define e where "e = drop (length n - 4) n"
  have n: "n = stem @ e" by (simp add: stem_def e_def)
  from d have le: "lower e = ''.pdf''" by (simp add: lower_def e_def drop_map)
  then obtain c1 c2 c3 c4 where e: "e = [c1, c2, c3, c4]"
    by (auto simp: lower_def map_eq_Cons_conv)
  with le have cs: "c1 = CHR ''.''" "lower_char c2 = CHR ''p''" "lower_char c3 = CHR ''d''" "lower_char c4 = CHR ''f''"
    by (simp_all add: lower_def)
  have nd: "CHR ''.'' \<notin> set [c2, c3, c4]"
    using cs(2-4) by (auto dest: lower_char_not_dot)
  from l have "stem \<noteq> []" by (auto simp: stem_def)
  with nd have "suffix_of (stem @ CHR ''.'' # [c2, c3, c4]) = CHR ''.'' # [c2, c3, c4]"
    by (intro suffix_of_decompose) simp_all
  with n e cs le show "lower (suffix_of n) = ''.pdf''" by simp
qed

lemma with_suffix_differs:
  assumes "with_suffix p ''.tmp.pdf'' = Inr q"
  shows "q \<noteq> p \<and> butlast q = butlast p \<and> q \<noteq> []"
proof -
  from assms have p: "p \<noteq> []" "last p \<noteq> []"
    by (auto simp: with_suffix_def split: if_splits)
  define name where "name = last p"
  define name' where "name' = (if suffix_of name = [] then name @ ''.tmp.pdf''
                        else take (length name - length (suffix_of name)) name @ ''.tmp.pdf'')"
  from assms p have q: "q = butlast p @ [name']"
    by (auto simp: with_suffix_def Let_def name_def name'_def)
  have "name' \<noteq> name"
  proof (cases "suffix_of name = []")
    case True
    then show ?thesis by (simp add: name'_def)
  next
    case False
    from suffix_of_split[OF False] obtain stem ext where
      n: "name = stem @ CHR ''.'' # ext" "suffix_of name = CHR ''.'' # ext" "CHR ''.'' \<notin> set ext"
      by blast
    then have "name' = stem @ ''.tmp.pdf''" by (simp add: name'_def)
    with n show ?thesis by auto
  qed
  moreover have "last q = name'" unfolding q by simp
  ultimately have "q \<noteq> p" unfolding name_def by auto
  with q show ?thesis by simp
qed

subsection \<open>Enumeration of the input files\<close>

lemma file_beneath_nonempty: "file_beneath t p \<Longrightarrow> p \<noteq> []"
  by (induction rule: file_beneath.induct) auto

lemma os_walk_sound:
  "x \<in> set (os_walk d t) \<Longrightarrow> fn \<in> set (snd (snd x)) \<Longrightarrow>
     \<exists>p. fst x = d @ p \<and> file_beneath t (p @ [fn])"
proof (induction d t arbitrary: x rule: os_walk.induct)
  case (1 d)
  then show ?case by simp
next
  case (2 d es)
  from "2.prems"(1) consider
      (here) "x = (d, map fst (filter (\<lambda>e. is_dir_entry (snd e)) es),
                    map fst (filter (\<lambda>e. \<not> is_dir_entry (snd e)) es))"
    | (sub) e where "e \<in> set es" "is_dir_entry (snd e)" "x \<in> set (os_walk (d @ [fst e]) (snd e))"
    by auto
  then show ?case
  proof cases
    case here
    with "2.prems"(2) obtain e where "e \<in> set es" "\<not> is_dir_entry (snd e)" "fn = fst e"
      by auto
    then have "(fn, snd e) \<in> set es" by simp
    with \<open>\<not> is_dir_entry (snd e)\<close> have "file_beneath (DirEntry es) ([] @ [fn])"
      by (simp add: file_beneath.child)
    with here show ?thesis by (intro exI[of _ "[]"]) simp
  next
    case sub
    from "2.IH"[of e x] sub "2.prems"(2)
    obtain p where p: "fst x = (d @ [fst e]) @ p" "file_beneath (snd e) (p @ [fn])"
      by auto
    from sub(1) have "(fst e, snd e) \<in> set es" by simp
    then have "file_beneath (DirEntry es) (fst e # (p @ [fn]))"
      using p(2) by (rule file_beneath.below)
    with p(1) show ?thesis by (intro exI[of _ "fst e # p"]) simp
  qed
qed

lemma file_beneath_is_dir: "file_beneath t p \<Longrightarrow> is_dir_entry t"
  by (induction rule: file_beneath.induct) auto

lemma os_walk_complete:
  "file_beneath t q \<Longrightarrow>
     \<exists>x \<in> set (os_walk d t). fst x @ [last q] = d @ q \<and> last q \<in> set (snd (snd x))"
proof (induction arbitrary: d rule: file_beneath.induct)
  case (child n e es)
  let ?x = "(d, map fst (filter (\<lambda>e. is_dir_entry (snd e)) es),
                map fst (filter (\<lambda>e. \<not> is_dir_entry (snd e)) es))"
  have "?x \<in> set (os_walk d (DirEntry es))" by simp
  moreover from child have "n \<in> set (snd (snd ?x))" by (force simp: image_iff)
  ultimately show ?case by (intro bexI[of _ ?x]) simp_all
next
  case (below n e es p)
  from below.hyps(2) have pn: "p \<noteq> []" and dir: "is_dir_entry e"
    by (simp_all add: file_beneath_nonempty file_beneath_is_dir)
  from below.IH[of "d @ [n]"] obtain x where
    x: "x \<in> set (os_walk (d @ [n]) e)" "fst x @ [last p] = (d @ [n]) @ p" "last p \<in> set (snd (snd x))"
    by blast
  from x(1) below.hyps(1) dir have "x \<in> set (os_walk d (DirEntry es))"
    by (auto intro!: bexI[of _ "(n, e)"])
  with x pn show ?case by (intro bexI[of _ x]) auto
qed

lemma list_pdfs_recursive_set:
  "list_pdfs d t True = Inr ps \<Longrightarrow>
   set ps = {d @ p | p. file_beneath t p \<and> endswith (lower (last p)) ''.pdf''}"
proof -
  assume a: "list_pdfs d t True = Inr ps"
  have ps: "ps = concat (map (\<lambda>(root, dirs, files).
               map (\<lambda>fn. root @ [fn]) (filter (\<lambda>fn. endswith (lower fn) ''.pdf'') files))
             (os_walk d t))"
    using a by (simp add: list_pdfs_def)
  show ?thesis
  proof (intro set_eqI iffI)
    fix q assume "q \<in> set ps"
    then obtain x fn where x: "x \<in> set (os_walk d t)" "fn \<in> set (snd (snd x))"
        "endswith (lower fn) ''.pdf''" "q = fst x @ [fn]"
      unfolding ps by (auto split: prod.splits)
    from os_walk_sound[OF x(1,2)] obtain p where "fst x = d @ p" "file_beneath t (p @ [fn])"
      by blast
    with x show "q \<in> {d @ p | p. file_beneath t p \<and> endswith (lower (last p)) ''.pdf''}"
      by (auto intro!: exI[of _ "p @ [fn]"])
  next
    fix q assume "q \<in> {d @ p | p. file_beneath t p \<and> endswith (lower (last p)) ''.pdf''}"
    then obtain p where p: "q = d @ p" "file_beneath t p" "endswith (lower (last p)) ''.pdf''"
      by blast
    from os_walk_complete[OF p(2), of d] obtain x where
      x: "x \<in> set (os_walk d t)" "fst x @ [last p] = d @ p" "last p \<in> set (snd (snd x))"
      by blast
    obtain r ds fs where xr: "x = (r, ds, fs)" by (cases x) auto
    with x p have "last p \<in> set (filter (\<lambda>fn. endswith (lower fn) ''.pdf'') fs)" "q = r @ [last p]"
      by simp_all
    with x(1) xr show "q \<in> set ps"
      unfolding ps by (auto intro!: bexI[of _ x])
  qed
qed

lemma list_pdfs_recursive_order:
  "list_pdfs d (DirEntry es) True =
     Inr (map (\<lambda>fn. d @ [fn])
            (filter (\<lambda>fn. endswith (lower fn) ''.pdf'')
               (map fst (filter (\<lambda>e. \<not> is_dir_entry (snd e)) es)))
          @ concat (map (\<lambda>e. projr (list_pdfs (d @ [fst e]) (snd e) True))
                     (filter (\<lambda>e. is_dir_entry (snd e)) es)))"
proof -
  have cc: "concat (concat (map f xs)) = concat (map (\<lambda>x. concat (f x)) xs)"
    for f :: "(string \<times> dirtree) \<Rightarrow> path list list" and xs
    by (induction xs) simp_all
  show ?thesis
    by (simp add: list_pdfs_def map_concat o_def cc)
qed

lemma list_pdfs_flat_set:
  "list_pdfs d (DirEntry es) False = Inr ps \<Longrightarrow>
   set ps = {d @ [n] | n. file_beneath (DirEntry es) [n] \<and> lower (suffix_of n) = ''.pdf''}"
proof -
  assume "list_pdfs d (DirEntry es) False = Inr ps"
  then have ps: "ps = map (\<lambda>e. d @ [fst e])
                  (filter (\<lambda>e. \<not> is_dir_entry (snd e) \<and> lower (suffix_of (fst e)) = ''.pdf'') es)"
    by (simp add: list_pdfs_def)
  have fb: "file_beneath (DirEntry es) [n] \<longleftrightarrow> (\<exists>e \<in> set es. fst e = n \<and> \<not> is_dir_entry (snd e))" for n
  proof
    assume "file_beneath (DirEntry es) [n]"
    then show "\<exists>e \<in> set es. fst e = n \<and> \<not> is_dir_entry (snd e)"
      by (cases rule: file_beneath.cases) (force dest: file_beneath_nonempty)+
  next
    assume "\<exists>e \<in> set es. fst e = n \<and> \<not> is_dir_entry (snd e)"
    then obtain e where "e \<in> set es" "fst e = n" "\<not> is_dir_entry (snd e)" by blast
    then have "(n, snd e) \<in> set es" by auto
    then show "file_beneath (DirEntry es) [n]"
      using \<open>\<not> is_dir_entry (snd e)\<close> by (rule file_beneath.child)
  qed
  show ?thesis
    unfolding ps fb by (auto simp: image_iff)
qed

text \<open>
  Claim C9. With the recursive flag, \<open>list_pdfs\<close> yields exactly the files anywhere beneath
  the input directory whose name ends in \<open>.pdf\<close> without regard to case, directory by
  directory: first the matching files of a directory in listing order, then what each of
  its sub-directories yields, in listing order. Without the flag it yields exactly the
  direct children that are files and carry the extension \<open>.pdf\<close> without regard to case
  (a name that ends in \<open>.pdf\<close> and has a non-empty stem), in listing order.
\<close>

theorem list_pdfs_enumerates:
  "(\<exists>ps. list_pdfs d t True = Inr ps \<and>
         set ps = {d @ p | p. file_beneath t p \<and> endswith (lower (last p)) ''.pdf''})
   \<and> list_pdfs d (DirEntry es) True =
       Inr (map (\<lambda>fn. d @ [fn])
              (filter (\<lambda>fn. endswith (lower fn) ''.pdf'')
                 (map fst (filter (\<lambda>e. \<not> is_dir_entry (snd e)) es)))
            @ concat (map (\<lambda>e. projr (list_pdfs (d @ [fst e]) (snd e) True))
                       (filter (\<lambda>e. is_dir_entry (snd e)) es)))
   \<and> (\<exists>ps. list_pdfs d (DirEntry es) False = Inr ps \<and>
         ps = map (\<lambda>fn. d @ [fn])
                (filter (\<lambda>fn. lower (suffix_of fn) = ''.pdf'')
                   (map fst (filter (\<lambda>e. \<not> is_dir_entry (snd e)) es))) \<and>
         set ps = {d @ [n] | n. file_beneath (DirEntry es) [n] \<and>
                                endswith (lower n) ''.pdf'' \<and> 4 < length n})"
proof (intro conjI)
  obtain ps where ps: "list_pdfs d t True = Inr ps"
    by (simp add: list_pdfs_def)
  from list_pdfs_recursive_set[OF ps] ps
  show "\<exists>ps. list_pdfs d t True = Inr ps \<and>
         set ps = {d @ p | p. file_beneath t p \<and> endswith (lower (last p)) ''.pdf''}"
    by blast
next
  show "list_pdfs d (DirEntry es) True =
       Inr (map (\<lambda>fn. d @ [fn])
              (filter (\<lambda>fn. endswith (lower fn) ''.pdf'')
                 (map fst (filter (\<lambda>e. \<not> is_dir_entry (snd e)) es)))
            @ concat (map (\<lambda>e. projr (list_pdfs (d @ [fst e]) (snd e) True))
                       (filter (\<lambda>e. is_dir_entry (snd e)) es)))"
    by (rule list_pdfs_recursive_order)
next
  obtain ps where ps: "list_pdfs d (DirEntry es) False = Inr ps"
    by (simp add: list_pdfs_def)
  then have shape: "ps = map (\<lambda>fn. d @ [fn])
                (filter (\<lambda>fn. lower (suffix_of fn) = ''.pdf'')
                   (map fst (filter (\<lambda>e. \<not> is_dir_entry (snd e)) es)))"
    by (simp add: list_pdfs_def filter_map o_def)
  from list_pdfs_flat_set[OF ps]
  have "set ps = {d @ [n] | n. file_beneath (DirEntry es) [n] \<and>
                                endswith (lower n) ''.pdf'' \<and> 4 < length n}"
    by (simp add: pdf_suffix_iff)
  with ps shape
  show "\<exists>ps. list_pdfs d (DirEntry es) False = Inr ps \<and>
         ps = map (\<lambda>fn. d @ [fn])
                (filter (\<lambda>fn. lower (suffix_of fn) = ''.pdf'')
                   (map fst (filter (\<lambda>e. \<not> is_dir_entry (snd e)) es))) \<and>
         set ps = {d @ [n] | n. file_beneath (DirEntry es) [n] \<and>
                                endswith (lower n) ''.pdf'' \<and> 4 < length n}"
    by blast
qed

lemma ex_list: "list_pdfs [''in''] ex_tree True = Inr ex_pdfs"
  by (simp add: list_pdfs_def ex_tree_def ex_pdfs_def endswith_def lower_def lower_char_def)

theorem list_pdfs_enumerates_witness:
  "list_pdfs [''in''] ex_tree True = Inr ex_pdfs
   \<and> set ex_pdfs = {[''in''] @ p | p. file_beneath ex_tree p \<and> endswith (lower (last p)) ''.pdf''}
   \<and> list_pdfs [''in''] ex_tree False
       = Inr [[''in'', ''a.pdf''], [''in'', ''c.pdf''], [''in'', ''d.pdf'']]"
proof -
  from list_pdfs_enumerates[of "[''in'']" ex_tree]
  obtain ps where ps: "list_pdfs [''in''] ex_tree True = Inr ps"
    "set ps = {[''in''] @ p | p. file_beneath ex_tree p \<and> endswith (lower (last p)) ''.pdf''}"
    by blast
  have f: "list_pdfs [''in''] ex_tree False
       = Inr [[''in'', ''a.pdf''], [''in'', ''c.pdf''], [''in'', ''d.pdf'']]"
    by (simp add: list_pdfs_def ex_tree_def suffix_of_def lower_def lower_char_def)
  from ps ex_list f show ?thesis by simp
qed

subsection \<open>The worker on one file\<close>

lemma node_at_file: "node_at f p = Some (File b) \<Longrightarrow> p \<noteq> [] \<and> f p = Some (File b)"
  by (auto simp: node_at_def split: if_splits)






lemma after_invocation_failed:
  assumes "rc \<noteq> 0 \<or> \<not> exists tmp_out (files s) \<or> stat_size tmp_out (files s) = Inr 0"
  shows "after_invocation in_root pdf out_pdf tmp_out rc err s =
           Inr (s\<lparr>failed := failed s + 1,
                  log_q := log_q s @ [Log (FailGsMsg (name_of pdf) rc)]
                             @ (if err \<noteq> [] then [Log (StderrMsg (take 500 (strip err)))] else []),
                  files := unlink_quietly tmp_out (files s)\<rparr>)"
  using assms
  by (auto simp: after_invocation_def put_def Let_def)

lemma worker_file_invoked:
  assumes "safe_output_path out_dir in_root pdf (files s) = Inr (out_pdf, f1)"
      and "\<not> (exists out_pdf f1 \<and> \<not> overwrite_get ev i)"
      and "with_suffix out_pdf ''.tmp.pdf'' = Inr tmp_out"
      and "compress_pdf ev gs pdf tmp_out preset (unlink_quietly tmp_out f1) = Inr ((rc, out, err), f3)"
  shows "worker_file ev in_root out_dir gs preset i pdf s =
           (case after_invocation in_root pdf out_pdf tmp_out rc err
                   (s\<lparr>invocations := invocations s @ [gs_command gs pdf tmp_out preset],
                      files := f3\<rparr>) of
              Inl x \<Rightarrow> Inl x
            | Inr s4 \<Rightarrow> Inr (put (Progress i) s4))"
  using assms by (auto simp: worker_file_def Let_def)

lemma os_mkdir_frame:
  "os_mkdir p f = Inr f' \<Longrightarrow> f' = f(p \<mapsto> Dir) \<and> f p = None \<and> p \<noteq> []"
  by (auto simp: os_mkdir_def split: if_splits option.splits node.splits)

lemma mkdir_exist_ok_frame:
  "mkdir_exist_ok p f = Inr f' \<Longrightarrow> f' = f \<or> (f' = f(p \<mapsto> Dir) \<and> f p = None)"
  by (auto simp: mkdir_exist_ok_def dest: os_mkdir_frame split: sum.splits error.splits if_splits)

lemma mkdir_parents_frame:
  "mkdir_parents p f = Inr f' \<Longrightarrow> f' q = f q \<or> (f q = None \<and> f' q = Some Dir)"
proof (induction p f arbitrary: f' rule: mkdir_parents.induct)
  case (1 p f)
  show ?case
  proof (cases "os_mkdir p f")
    case (Inr g)
    with "1.prems" have "f' = g" by (simp add: mkdir_parents.simps[of p f])
    with Inr os_mkdir_frame[of p f g] show ?thesis by auto
  next
    case (Inl e)
    show ?thesis
    proof (cases "e = FileNotFoundError")
      case False
      with Inl "1.prems" have "f' = f"
        by (cases e) (auto simp: mkdir_parents.simps[of p f] split: if_splits)
      then show ?thesis by simp
    next
      case True
      with Inl "1.prems" obtain g where pn: "p \<noteq> []"
        and g: "mkdir_parents (butlast p) f = Inr g" and f': "mkdir_exist_ok p g = Inr f'"
        by (auto simp: mkdir_parents.simps[of p f] split: if_splits sum.splits)
      from "1.IH"[OF _ _ pn g] Inl True
      have "g q = f q \<or> (f q = None \<and> g q = Some Dir)" by simp
      with mkdir_exist_ok_frame[OF f'] show ?thesis by (auto split: if_splits)
    qed
  qed
qed

lemma safe_output_path_frame:
  assumes "safe_output_path out_dir in_root pdf f = Inr (out_pdf, f1)"
  shows "(f1 q = Some (File b)) = (f q = Some (File b))"
proof -
  from assms obtain rel where "mkdir_parents (butlast (out_dir @ rel)) f = Inr f1"
    by (auto simp: safe_output_path_def Let_def split: sum.splits)
  from mkdir_parents_frame[OF this, of q] show ?thesis by auto
qed

lemma safe_output_path_rel:
  assumes "safe_output_path out_dir in_root pdf f = Inr (out_pdf, f1)"
  shows "\<exists>rel. relative_to pdf in_root = Inr rel \<and> pdf = in_root @ rel \<and> out_pdf = out_dir @ rel"
  using assms
  by (auto simp: safe_output_path_def relative_to_def Let_def prefix_def split: sum.splits if_splits)

lemma mapped_paths_distinct:
  assumes sop: "safe_output_path out_dir in_root pdf f = Inr (out_pdf, f1)"
      and ws: "with_suffix out_pdf ''.tmp.pdf'' = Inr tmp_out"
      and ne: "out_dir \<noteq> in_root"
  shows "out_pdf \<noteq> pdf" and "pdf \<noteq> in_root \<Longrightarrow> tmp_out \<noteq> pdf"
proof -
  from safe_output_path_rel[OF sop] obtain rel where
    rel: "pdf = in_root @ rel" "out_pdf = out_dir @ rel" by blast
  with ne show "out_pdf \<noteq> pdf" by simp
  assume "pdf \<noteq> in_root"
  with rel have rn: "rel \<noteq> []" by auto
  from with_suffix_differs[OF ws] have bl: "butlast tmp_out = butlast out_pdf" "tmp_out \<noteq> []"
    by simp_all
  show "tmp_out \<noteq> pdf"
  proof
    assume "tmp_out = pdf"
    with bl(1) have "butlast (in_root @ rel) = butlast (out_dir @ rel)"
      using rel by simp
    with rn have "in_root @ butlast rel = out_dir @ butlast rel"
      by (simp add: butlast_append)
    with ne show False by simp
  qed
qed

text \<open>
  Claim C3. When the mapped output path exists and the overwrite policy is off for this
  file, the turn of the loop ends at once: the skipped counter goes up by one, a progress
  event and a skip line are queued, nothing is handed to the external tool, and the regular
  files of the file system are the same as before (so no temporary file is created).
\<close>

theorem skip_rule:
  assumes "safe_output_path out_dir in_root pdf (files s) = Inr (out_pdf, f1)"
      and "exists out_pdf f1"
      and "\<not> overwrite_get ev i"
  shows "worker_file ev in_root out_dir gs preset i pdf s =
           Inr (s\<lparr>skipped := skipped s + 1,
                  log_q := log_q s @ [Progress i, Log (SkipMsg (name_of pdf))],
                  files := f1\<rparr>)
         \<and> invocations (final_state (worker_file ev in_root out_dir gs preset i pdf s))
             = invocations s
         \<and> (\<forall>q b. (files (final_state (worker_file ev in_root out_dir gs preset i pdf s)) q
                      = Some (File b)) = (files s q = Some (File b)))"
proof -
  have w: "worker_file ev in_root out_dir gs preset i pdf s =
           Inr (s\<lparr>skipped := skipped s + 1,
                  log_q := log_q s @ [Progress i, Log (SkipMsg (name_of pdf))],
                  files := f1\<rparr>)"
    using assms by (simp add: worker_file_def Let_def put_def)
  moreover have "\<forall>q b. (f1 q = Some (File b)) = (files s q = Some (File b))"
    using safe_output_path_frame[OF assms(1)] by blast
  ultimately show ?thesis by (simp add: final_state_def)
qed

text \<open>
  Claim C7. When the tool's exit code is not zero, or the temporary output is missing, or
  it is empty, the file is counted as failed and nothing else is counted; the failure line
  with the exit code is queued, followed by the first 500 characters of the stripped
  standard error when there is any; the temporary file is removed if that can be done and
  left alone otherwise; and the loop goes on with the next file.
\<close>

theorem invocation_failure_handled:
  assumes sop: "safe_output_path out_dir in_root pdf (files s) = Inr (out_pdf, f1)"
      and nskip: "\<not> (exists out_pdf f1 \<and> \<not> overwrite_get ev i)"
      and ws: "with_suffix out_pdf ''.tmp.pdf'' = Inr tmp_out"
      and run: "compress_pdf ev gs pdf tmp_out preset (unlink_quietly tmp_out f1)
                  = Inr ((rc, out, err), f3)"
      and bad: "rc \<noteq> 0 \<or> \<not> exists tmp_out f3 \<or> stat_size tmp_out f3 = Inr 0"
      and go: "\<not> stop_is_set ev i"
  shows "\<exists>s'. worker_file ev in_root out_dir gs preset i pdf s = Inr s'
           \<and> failed s' = failed s + 1 \<and> ok s' = ok s \<and> skipped s' = skipped s
           \<and> total_in_bytes s' = total_in_bytes s \<and> total_out_bytes s' = total_out_bytes s
           \<and> log_q s' = log_q s @ [Log (FailGsMsg (name_of pdf) rc)]
                  @ (if err \<noteq> [] then [Log (StderrMsg (take 500 (strip err)))] else [])
                  @ [Progress i]
           \<and> length (take 500 (strip err)) \<le> 500
           \<and> files s' = unlink_quietly tmp_out f3
           \<and> (is_file tmp_out f3 \<longrightarrow> \<not> exists tmp_out (files s'))
           \<and> worker_loop ev in_root out_dir gs preset i (pdf # rest) s
               = worker_loop ev in_root out_dir gs preset (Suc i) rest s'"
proof -
  define s2 where "s2 = s\<lparr>invocations := invocations s @ [gs_command gs pdf tmp_out preset],
                          files := f3\<rparr>"
  define s' where "s' = put (Progress i)
      (s2\<lparr>failed := failed s2 + 1,
          log_q := log_q s2 @ [Log (FailGsMsg (name_of pdf) rc)]
                     @ (if err \<noteq> [] then [Log (StderrMsg (take 500 (strip err)))] else []),
          files := unlink_quietly tmp_out (files s2)\<rparr>)"
  from bad have bad2: "rc \<noteq> 0 \<or> \<not> exists tmp_out (files s2) \<or> stat_size tmp_out (files s2) = Inr 0"
    by (simp add: s2_def)
  have w: "worker_file ev in_root out_dir gs preset i pdf s = Inr s'"
    unfolding worker_file_invoked[OF sop nskip ws run] s2_def[symmetric]
      after_invocation_failed[OF bad2] s'_def by simp
  have rm: "is_file tmp_out f3 \<longrightarrow> \<not> exists tmp_out (unlink_quietly tmp_out f3)"
    by (auto simp: unlink_quietly_def unlink_if_exists_def unlink_def exists_def is_file_def
          node_at_def split: option.splits node.splits if_splits)
  have lp: "worker_loop ev in_root out_dir gs preset i (pdf # rest) s
               = worker_loop ev in_root out_dir gs preset (Suc i) rest s'"
    using go w by simp
  show ?thesis
    apply (rule exI[of _ s'])
    apply (intro conjI w lp)
    using rm apply (simp_all add: s'_def s2_def put_def)
    done
qed










subsection \<open>The examples, run\<close>


lemma ex_mapped_top:
  "n \<noteq> [] \<Longrightarrow> safe_output_path [''out''] [''in''] [''in'', n] ex_fs = Inr ([''out'', n], ex_fs)"
  by (simp add: safe_output_path_def mkdir_parents.simps fs_simps path_simps ex_fs_def)

theorem skip_rule_witness:
  "worker_file ex_env [''in''] [''out''] ''gs'' ''/ebook'' 3 [''in'', ''c.pdf''] ex_state =
     Inr (ex_state\<lparr>skipped := 1, log_q := [Progress 3, Log (SkipMsg ''c.pdf'')]\<rparr>)
   \<and> invocations (final_state
        (worker_file ex_env [''in''] [''out''] ''gs'' ''/ebook'' 3 [''in'', ''c.pdf''] ex_state)) = []
   \<and> files (final_state
        (worker_file ex_env [''in''] [''out''] ''gs'' ''/ebook'' 3 [''in'', ''c.pdf''] ex_state))
        [''out'', ''c.tmp.pdf''] = None"
proof -
  have h1: "safe_output_path [''out''] [''in''] [''in'', ''c.pdf''] (files ex_state)
              = Inr ([''out'', ''c.pdf''], ex_fs)"
    by (simp add: ex_mapped_top ex_state_def)
  have h2: "exists [''out'', ''c.pdf''] ex_fs"
    by (simp add: fs_simps ex_fs_def)
  have h3: "\<not> overwrite_get ex_env 3"
    by (simp add: ex_env_def)
  from skip_rule[OF h1 h2 h3, of "''gs''" "''/ebook''"]
  show ?thesis
    by (simp add: ex_state_def final_state_def name_of_def) (simp add: ex_fs_def)
qed


lemma ex_tmp_free:
  "n \<notin> {[''out''], [''out'', ''sub''], [''out'', ''c.pdf''], [''in''], [''in'', ''a.pdf''],
          [''in'', ''sub''], [''in'', ''sub'', ''b.pdf''], [''in'', ''c.pdf''], [''in'', ''d.pdf''],
          [''in'', ''.pdf''], [''in'', ''e.PDF''], [''in'', ''sub'', ''notes.txt''],
          [''usr''], [''usr'', ''gs'']}
   \<Longrightarrow> unlink_quietly n ex_fs = ex_fs"
  by (auto simp: fs_simps ex_fs_def)

theorem invocation_failure_handled_witness:
  "\<exists>s'. worker_file ex_env [''in''] [''out''] ''gs'' ''/ebook'' 4 [''in'', ''d.pdf''] ex_state = Inr s'
      \<and> failed s' = 1 \<and> ok s' = 0 \<and> skipped s' = 0
      \<and> log_q s' = [Log (FailGsMsg ''d.pdf'' 1), Log (StderrMsg ''no input''), Progress 4]
      \<and> files s' = ex_fs
      \<and> worker_loop ex_env [''in''] [''out''] ''gs'' ''/ebook'' 4 [[''in'', ''d.pdf'']] ex_state
          = Inr s'"
proof -
  have h1: "safe_output_path [''out''] [''in''] [''in'', ''d.pdf''] (files ex_state)
              = Inr ([''out'', ''d.pdf''], ex_fs)"
    by (simp add: ex_mapped_top ex_state_def)
  have h2: "\<not> (exists [''out'', ''d.pdf''] ex_fs \<and> \<not> overwrite_get ex_env 4)"
    by (simp add: fs_simps ex_fs_def)
  have h3: "with_suffix [''out'', ''d.pdf''] ''.tmp.pdf'' = Inr [''out'', ''d.tmp.pdf'']"
    by (simp add: path_simps)
  have h4: "compress_pdf ex_env ''gs'' [''in'', ''d.pdf''] [''out'', ''d.tmp.pdf''] ''/ebook''
              (unlink_quietly [''out'', ''d.tmp.pdf''] ex_fs)
            = Inr ((1, [], '' no input ''), ex_fs)"
    by (simp add: ex_tmp_free compress_pdf_def gs_command_def ex_env_def ex_run_def path_simps)
  have h5: "(1::int) \<noteq> 0 \<or> \<not> exists [''out'', ''d.tmp.pdf''] ex_fs
              \<or> stat_size [''out'', ''d.tmp.pdf''] ex_fs = Inr 0"
    by simp
  have h6: "\<not> stop_is_set ex_env 4"
    by (simp add: ex_env_def)
  from invocation_failure_handled[OF h1 h2 h3 h4 h5 h6, of "[]"]
  obtain s' where s':
    "worker_file ex_env [''in''] [''out''] ''gs'' ''/ebook'' 4 [''in'', ''d.pdf''] ex_state = Inr s'"
    "failed s' = failed ex_state + 1" "ok s' = ok ex_state" "skipped s' = skipped ex_state"
    "log_q s' = log_q ex_state @ [Log (FailGsMsg (name_of [''in'', ''d.pdf'']) 1)]
                  @ (if '' no input '' \<noteq> [] then [Log (StderrMsg (take 500 (strip '' no input '')))] else [])
                  @ [Progress 4]"
    "files s' = unlink_quietly [''out'', ''d.tmp.pdf''] ex_fs"
    "worker_loop ex_env [''in''] [''out''] ''gs'' ''/ebook'' 4 ([''in'', ''d.pdf''] # []) ex_state
       = worker_loop ex_env [''in''] [''out''] ''gs'' ''/ebook'' (Suc 4) [] s'"
    by blast
  show ?thesis
    apply (rule exI[of _ s'])
    using s' apply (simp add: ex_state_def name_of_def strip_def is_space_def ex_tmp_free)
    done
qed





subsection \<open>Validation\<close>

lemma os_mkdir_is_dir: "os_mkdir p f = Inr f' \<Longrightarrow> is_dir p f'"
  by (auto simp: os_mkdir_def is_dir_def node_at_def split: if_splits option.splits node.splits)

lemma mkdir_exist_ok_is_dir: "mkdir_exist_ok p f = Inr f' \<Longrightarrow> is_dir p f'"
  by (auto simp: mkdir_exist_ok_def dest: os_mkdir_is_dir split: sum.splits error.splits if_splits)

lemma mkdir_parents_is_dir: "mkdir_parents p f = Inr f' \<Longrightarrow> is_dir p f'"
  by (subst (asm) mkdir_parents.simps)
     (auto dest: os_mkdir_is_dir mkdir_exist_ok_is_dir split: sum.splits error.splits if_splits)

lemma validate_shape:
  assumes "validate ev a f = Inr ((in_path, out_dir, gs, is_f), a', f')"
  shows "in_path = Path (strip (input_dir a)) \<and> is_f = is_file in_path f
         \<and> exists in_path f \<and> is_dir (Path (strip (output_dir a))) f"
  using assms
  by (auto simp: validate_def Let_def split: if_splits sum.splits prod.splits)

lemma choose_gs_output_dir:
  "choose_gs ev a f = Inr (gs, a1) \<Longrightarrow> output_dir a1 = output_dir a"
  by (auto simp: choose_gs_def Let_def split: if_splits option.splits)

lemma avoid_input_root_same:
  assumes "avoid_input_root ev in_path is_f out_dir a f = (out_dir', a', f')"
      and "resolve ev (if is_f then butlast in_path else in_path) = Inr r"
      and "resolve ev out_dir = Inr r"
  shows "out_dir' = (if is_f then butlast in_path else in_path) @ [''_compressed'']
         \<and> (case mkdir_parents out_dir' f of
               Inr g \<Rightarrow> f' = g \<and> output_dir a' = str_of_path out_dir'
             | Inl e \<Rightarrow> f' = f \<and> output_dir a' = output_dir a)"
  using assms
  by (cases is_f) (auto simp: avoid_input_root_def Let_def split: sum.splits)

lemma validate_redirect:
  assumes v: "validate ev a f = Inr ((in_path, out_dir, gs, is_f), a', f')"
      and r1: "resolve ev (if is_f then butlast in_path else in_path) = Inr r"
      and r2: "resolve ev (Path (strip (output_dir a))) = Inr r"
  shows "out_dir = (if is_f then butlast in_path else in_path) @ [''_compressed'']
         \<and> (case mkdir_parents out_dir f of
               Inr g \<Rightarrow> f' = g \<and> output_dir a' = str_of_path out_dir
             | Inl e \<Rightarrow> f' = f \<and> output_dir a' = output_dir a)"
proof -
  from validate_shape[OF v] have s: "in_path = Path (strip (input_dir a))" "is_f = is_file in_path f"
    by simp_all
  from v obtain a1 where g: "choose_gs ev a f = Inr (gs, a1)"
    and r: "avoid_input_root ev in_path is_f (Path (strip (output_dir a))) a1 f = (out_dir, a', f')"
    unfolding s
    by (auto simp: validate_def Let_def split: if_splits sum.splits prod.splits)
  from avoid_input_root_same[OF r r1 r2] choose_gs_output_dir[OF g]
  show ?thesis by (auto split: sum.splits)
qed

lemma redirected_paths:
  assumes sop: "safe_output_path (in_root @ [''_compressed'']) in_root pdf g = Inr (out_pdf, g')"
      and ne: "pdf \<noteq> in_root"
  shows "prefix (in_root @ [''_compressed'']) out_pdf \<and> out_pdf \<noteq> pdf \<and> butlast out_pdf \<noteq> in_root
         \<and> (\<forall>tmp_out. with_suffix out_pdf ''.tmp.pdf'' = Inr tmp_out \<longrightarrow>
               prefix (in_root @ [''_compressed'']) tmp_out \<and> butlast tmp_out \<noteq> in_root
               \<and> tmp_out \<noteq> pdf)"
proof -
  from safe_output_path_rel[OF sop] obtain rel where
    rel: "pdf = in_root @ rel" "out_pdf = (in_root @ [''_compressed'']) @ rel" by blast
  with ne have rn: "rel \<noteq> []" by auto
  have bl: "butlast out_pdf = in_root @ ''_compressed'' # butlast rel"
    using rn by (simp add: rel butlast_append)
  have a: "prefix (in_root @ [''_compressed'']) out_pdf" "out_pdf \<noteq> pdf" "butlast out_pdf \<noteq> in_root"
    using bl by (simp_all add: rel)
  have b: "prefix (in_root @ [''_compressed'']) tmp_out \<and> butlast tmp_out \<noteq> in_root \<and> tmp_out \<noteq> pdf"
    if ws: "with_suffix out_pdf ''.tmp.pdf'' = Inr tmp_out" for tmp_out
  proof -
    from with_suffix_differs[OF ws] have t: "butlast tmp_out = butlast out_pdf" "tmp_out \<noteq> []"
      by simp_all
    then have "tmp_out = (in_root @ ''_compressed'' # butlast rel) @ [last tmp_out]"
      using bl by (metis append_butlast_last_id)
    then have "prefix (in_root @ [''_compressed'']) tmp_out"
      by (metis append.assoc append_Cons append_Nil prefixI)
    moreover have "butlast tmp_out \<noteq> in_root" using t(1) bl by simp
    moreover have "length (butlast tmp_out) = length (butlast out_pdf)" using t(1) by simp
    then have "length tmp_out - 1 = length in_root + length rel"
      by (simp add: rel)
    moreover have "0 < length tmp_out" using t(2) by simp
    ultimately have "length tmp_out \<noteq> length pdf"
      unfolding rel(1) length_append by linarith
    then have "tmp_out \<noteq> pdf" by auto
    moreover note \<open>prefix (in_root @ [''_compressed'']) tmp_out\<close> \<open>butlast tmp_out \<noteq> in_root\<close>
    ultimately show ?thesis by simp
  qed
  from a b show ?thesis by blast
qed

text \<open>
  Claim C5. When validation passes and the resolved output folder equals the resolved input
  root (the input folder, or the folder of the single input file), the output folder that
  validation returns is the \<open>_compressed\<close> child of the input root. \<open>mkdir\<close> is tried on it:
  when it succeeds the folder exists afterwards and the output entry shows it; when it
  fails the file system and the entry stay as they were, and the redirected folder is
  returned all the same. With these two roots every output path the worker maps for a file
  below the input root, and the temporary path beside it, lies below \<open>_compressed\<close>:
  never directly in the input root, never the input file itself.
\<close>

theorem equal_roots_redirected:
  assumes v: "validate ev a f = Inr ((in_path, out_dir, gs, is_f), a', f')"
      and root: "in_root = (if is_f then butlast in_path else in_path)"
      and r1: "resolve ev in_root = Inr r"
      and r2: "resolve ev (Path (strip (output_dir a))) = Inr r"
  shows "out_dir = in_root @ [''_compressed'']
         \<and> (case mkdir_parents out_dir f of
               Inr g \<Rightarrow> f' = g \<and> is_dir out_dir f' \<and> output_dir a' = str_of_path out_dir
             | Inl e \<Rightarrow> f' = f \<and> output_dir a' = output_dir a)
         \<and> (\<forall>pdf g out_pdf g'.
               pdf \<noteq> in_root \<and> safe_output_path out_dir in_root pdf g = Inr (out_pdf, g') \<longrightarrow>
                 prefix (in_root @ [''_compressed'']) out_pdf \<and> out_pdf \<noteq> pdf
                 \<and> butlast out_pdf \<noteq> in_root
                 \<and> (\<forall>tmp_out. with_suffix out_pdf ''.tmp.pdf'' = Inr tmp_out \<longrightarrow>
                       prefix (in_root @ [''_compressed'']) tmp_out
                       \<and> butlast tmp_out \<noteq> in_root \<and> tmp_out \<noteq> pdf))"
proof -
  from validate_redirect[OF v r1[unfolded root] r2]
  have o: "out_dir = in_root @ [''_compressed'']"
    and m: "case mkdir_parents out_dir f of
               Inr g \<Rightarrow> f' = g \<and> output_dir a' = str_of_path out_dir
             | Inl e \<Rightarrow> f' = f \<and> output_dir a' = output_dir a"
    unfolding root by blast+
  have m': "case mkdir_parents out_dir f of
               Inr g \<Rightarrow> f' = g \<and> is_dir out_dir f' \<and> output_dir a' = str_of_path out_dir
             | Inl e \<Rightarrow> f' = f \<and> output_dir a' = output_dir a"
    using m by (auto split: sum.splits dest: mkdir_parents_is_dir)
  show ?thesis
    using o m' redirected_paths[of in_root] by blast
qed


lemma ex_validate:
  "validate ex_env ex_app ex_fs =
     Inr (([''in''], [''in'', ''_compressed''], ''/usr/gs'', False),
          ex_app\<lparr>output_dir := ''/in/_compressed''\<rparr>,
          ex_fs([''in'', ''_compressed''] \<mapsto> Dir))"
  by (simp add: validate_def choose_gs_def avoid_input_root_def ex_app_def ex_env_def
        Path_def strip_def is_space_def fs_simps path_simps mkdir_parents.simps Let_def)
     (simp add: ex_fs_def)

theorem equal_roots_redirected_witness:
  "validate ex_env ex_app ex_fs =
     Inr (([''in''], [''in'', ''_compressed''], ''/usr/gs'', False),
          ex_app\<lparr>output_dir := ''/in/_compressed''\<rparr>,
          ex_fs([''in'', ''_compressed''] \<mapsto> Dir))
   \<and> resolve ex_env [''in''] = resolve ex_env (Path (strip (output_dir ex_app)))
   \<and> is_dir [''in'', ''_compressed''] (ex_fs([''in'', ''_compressed''] \<mapsto> Dir))
   \<and> safe_output_path [''in'', ''_compressed''] [''in''] [''in'', ''a.pdf'']
         (ex_fs([''in'', ''_compressed''] \<mapsto> Dir))
       = Inr ([''in'', ''_compressed'', ''a.pdf''], ex_fs([''in'', ''_compressed''] \<mapsto> Dir))
   \<and> with_suffix [''in'', ''_compressed'', ''a.pdf''] ''.tmp.pdf''
       = Inr [''in'', ''_compressed'', ''a.tmp.pdf'']
   \<and> prefix [''in'', ''_compressed''] [''in'', ''_compressed'', ''a.pdf'']
   \<and> prefix [''in'', ''_compressed''] [''in'', ''_compressed'', ''a.tmp.pdf'']"
proof -
  have root: "[''in''] = (if False then butlast [''in''] else [''in''])" by simp
  have r1: "resolve ex_env [''in''] = Inr [''in'']" by (simp add: ex_env_def)
  have r2: "resolve ex_env (Path (strip (output_dir ex_app))) = Inr [''in'']"
    by (simp add: ex_env_def ex_app_def Path_def strip_def is_space_def)
  have m: "mkdir_parents [''in'', ''_compressed''] ex_fs = Inr (ex_fs([''in'', ''_compressed''] \<mapsto> Dir))"
    by (simp add: mkdir_parents.simps fs_simps ex_fs_def)
  have sop: "safe_output_path [''in'', ''_compressed''] [''in''] [''in'', ''a.pdf'']
         (ex_fs([''in'', ''_compressed''] \<mapsto> Dir))
       = Inr ([''in'', ''_compressed'', ''a.pdf''], ex_fs([''in'', ''_compressed''] \<mapsto> Dir))"
    by (simp add: safe_output_path_def mkdir_parents.simps fs_simps path_simps ex_fs_def)
  have ws: "with_suffix [''in'', ''_compressed'', ''a.pdf''] ''.tmp.pdf''
       = Inr [''in'', ''_compressed'', ''a.tmp.pdf'']"
    by (simp add: path_simps)
  have ne: "[''in'', ''a.pdf''] \<noteq> [''in'']" by simp
  note red = equal_roots_redirected[OF ex_validate root r1 r2]
  from red m
  have d: "is_dir [''in'', ''_compressed''] (ex_fs([''in'', ''_compressed''] \<mapsto> Dir))"
    by simp
  from red ne sop
  have p: "prefix ([''in''] @ [''_compressed'']) [''in'', ''_compressed'', ''a.pdf'']
           \<and> (\<forall>tmp_out. with_suffix [''in'', ''_compressed'', ''a.pdf''] ''.tmp.pdf'' = Inr tmp_out \<longrightarrow>
                 prefix ([''in''] @ [''_compressed'']) tmp_out)"
    by blast
  with ws have "prefix [''in'', ''_compressed''] [''in'', ''_compressed'', ''a.pdf'']"
    "prefix [''in'', ''_compressed''] [''in'', ''_compressed'', ''a.tmp.pdf'']"
    by auto
  with ex_validate r1 r2 sop ws d show ?thesis by simp
qed

subsection \<open>Every turn of the loop, whatever branch it takes\<close>

lemma outcomes_append [simp]: "outcomes (xs @ ys) = outcomes xs @ outcomes ys"
  by (induction xs) (auto split: option.splits)

lemma worker_try_Inr:
  assumes "worker_try in_root pdf out_pdf tmp_out s = Inr s'"
  shows "\<exists>oc m. log_q s' = log_q s @ [Log m] \<and> outcome_of (Log m) = Some oc \<and> succeeded oc
           \<and> \<not> promotion_raised (Log m)
           \<and> ok s' = ok s + 1 \<and> skipped s' = skipped s \<and> failed s' = failed s
           \<and> total_in_bytes s' = total_in_bytes s + input_bytes oc
           \<and> total_out_bytes s' = total_out_bytes s + output_bytes oc
           \<and> invocations s' = invocations s"
  using assms
  by (auto simp: worker_try_def Let_def put_def split: sum.splits if_splits)

lemma worker_try_Inl:
  assumes "worker_try in_root pdf out_pdf tmp_out s = Inl (e, s')"
      and "relative_to pdf in_root = Inr rel"
  shows "log_q s' = log_q s \<and> ok s' = ok s \<and> skipped s' = skipped s \<and> failed s' = failed s
           \<and> total_out_bytes s' = total_out_bytes s \<and> invocations s' = invocations s"
  using assms
  by (auto simp: worker_try_def Let_def put_def split: sum.splits if_splits)


lemma after_invocation_Inl:
  "after_invocation in_root pdf out_pdf tmp_out rc err s = Inl (e, s') \<Longrightarrow> s' = s"
  by (auto simp: after_invocation_def Let_def split: sum.splits if_splits bool.splits prod.splits)

lemma after_invocation_Inr:
  assumes a: "after_invocation in_root pdf out_pdf tmp_out rc err s = Inr s'"
      and rel: "relative_to pdf in_root = Inr rel"
  shows "\<exists>evs oc. log_q s' = log_q s @ evs \<and> outcomes evs = [oc]
           \<and> ok s' = ok s + (if succeeded oc then 1 else 0)
           \<and> skipped s' = skipped s
           \<and> failed s' = failed s + (if oc = Failed then 1 else 0)
           \<and> oc \<noteq> Skipped
           \<and> total_out_bytes s' = total_out_bytes s + output_bytes oc
           \<and> (\<not> list_ex promotion_raised evs \<longrightarrow>
                 total_in_bytes s' = total_in_bytes s + input_bytes oc)
           \<and> invocations s' = invocations s"
proof -
  consider (good) "(if rc = 0 \<and> exists tmp_out (files s)
            then (case stat_size tmp_out (files s) of
                    Inl e \<Rightarrow> Inl e
                  | Inr st_size \<Rightarrow> Inr (st_size > 0))
            else Inr False) = Inr True"
    | (bad) "(if rc = 0 \<and> exists tmp_out (files s)
            then (case stat_size tmp_out (files s) of
                    Inl e \<Rightarrow> Inl e
                  | Inr st_size \<Rightarrow> Inr (st_size > 0))
            else Inr False) = Inr False"
    using a by (auto simp: after_invocation_def split: sum.splits bool.splits)
  then show ?thesis
  proof cases
    case good
    show ?thesis
    proof (cases "worker_try in_root pdf out_pdf tmp_out s")
      case (Inr t)
      with a good have "s' = t" by (simp add: after_invocation_def)
      with worker_try_Inr[OF Inr] obtain oc m where
        "log_q s' = log_q s @ [Log m]" "outcome_of (Log m) = Some oc" "succeeded oc"
        "\<not> promotion_raised (Log m)"
        "ok s' = ok s + 1" "skipped s' = skipped s" "failed s' = failed s"
        "total_in_bytes s' = total_in_bytes s + input_bytes oc"
        "total_out_bytes s' = total_out_bytes s + output_bytes oc"
        "invocations s' = invocations s"
        by blast
      then show ?thesis
        by (intro exI[of _ "[Log m]"] exI[of _ oc]) auto
    next
      case (Inl x)
      obtain e t where x: "x = (e, t)" by (cases x) auto
      from worker_try_Inl[OF Inl[unfolded x] rel]
      have t: "log_q t = log_q s" "ok t = ok s" "skipped t = skipped s" "failed t = failed s"
        "total_out_bytes t = total_out_bytes s" "invocations t = invocations s"
        by simp_all
      from a good Inl x have s': "s' = (put (Log (FailWriteMsg (name_of pdf) e)) (t\<lparr>failed := failed t + 1\<rparr>))
                   \<lparr>files := unlink_quietly tmp_out (files (put (Log (FailWriteMsg (name_of pdf) e)) (t\<lparr>failed := failed t + 1\<rparr>)))\<rparr>"
        by (simp add: after_invocation_def Let_def)
      show ?thesis
        by (intro exI[of _ "[Log (FailWriteMsg (name_of pdf) e)]"] exI[of _ Failed])
           (simp add: s' put_def t)
    qed
  next
    case bad
    from a bad have s': "s' = s\<lparr>failed := failed s + 1,
                  log_q := log_q s @ [Log (FailGsMsg (name_of pdf) rc)]
                             @ (if err \<noteq> [] then [Log (StderrMsg (take 500 (strip err)))] else []),
                  files := unlink_quietly tmp_out (files s)\<rparr>"
      by (auto simp: after_invocation_def Let_def put_def)
    show ?thesis
      by (intro exI[of _ "[Log (FailGsMsg (name_of pdf) rc)]
                             @ (if err \<noteq> [] then [Log (StderrMsg (take 500 (strip err)))] else [])"]
                exI[of _ Failed])
         (simp add: s')
  qed
qed

lemma worker_file_Inl:
  assumes "worker_file ev in_root out_dir gs preset i pdf s = Inl (e, s')"
  shows "log_q s' = log_q s \<and> ok s' = ok s \<and> skipped s' = skipped s \<and> failed s' = failed s
         \<and> total_in_bytes s' = total_in_bytes s \<and> total_out_bytes s' = total_out_bytes s
         \<and> (invocations s' = invocations s
              \<or> (\<exists>tmp_out. invocations s' = invocations s @ [gs_command gs pdf tmp_out preset]))"
  using assms
  by (auto simp: worker_file_def Let_def split: sum.splits if_splits prod.splits
           dest!: after_invocation_Inl)

lemma worker_file_Inr:
  assumes w: "worker_file ev in_root out_dir gs preset i pdf s = Inr s'"
  shows "\<exists>evs oc. log_q s' = log_q s @ evs \<and> outcomes evs = [oc]
           \<and> ok s' = ok s + (if succeeded oc then 1 else 0)
           \<and> skipped s' = skipped s + (if oc = Skipped then 1 else 0)
           \<and> failed s' = failed s + (if oc = Failed then 1 else 0)
           \<and> total_out_bytes s' = total_out_bytes s + output_bytes oc
           \<and> (\<not> list_ex promotion_raised evs \<longrightarrow>
                 total_in_bytes s' = total_in_bytes s + input_bytes oc)
           \<and> (invocations s' = invocations s
                \<or> (\<exists>tmp_out. invocations s' = invocations s @ [gs_command gs pdf tmp_out preset]))"
proof -
  from w obtain out_pdf f1 where sop: "safe_output_path out_dir in_root pdf (files s) = Inr (out_pdf, f1)"
    by (auto simp: worker_file_def split: sum.splits)
  from safe_output_path_rel[OF sop] obtain rel where rel: "relative_to pdf in_root = Inr rel"
    by blast
  show ?thesis
  proof (cases "exists out_pdf f1 \<and> \<not> overwrite_get ev i")
    case True
    with w sop have s': "s' = s\<lparr>skipped := skipped s + 1,
                  log_q := log_q s @ [Progress i, Log (SkipMsg (name_of pdf))],
                  files := f1\<rparr>"
      by (auto simp: worker_file_def Let_def put_def)
    show ?thesis
      by (intro exI[of _ "[Progress i, Log (SkipMsg (name_of pdf))]"] exI[of _ Skipped])
         (simp add: s')
  next
    case False
    with w sop obtain tmp_out rc out err f3 where
      ws: "with_suffix out_pdf ''.tmp.pdf'' = Inr tmp_out"
      and run: "compress_pdf ev gs pdf tmp_out preset (unlink_quietly tmp_out f1) = Inr ((rc, out, err), f3)"
      by (auto simp: worker_file_def Let_def split: sum.splits prod.splits)
    define s2 where "s2 = s\<lparr>invocations := invocations s @ [gs_command gs pdf tmp_out preset],
                          files := f3\<rparr>"
    from w obtain s4 where a: "after_invocation in_root pdf out_pdf tmp_out rc err s2 = Inr s4"
      and s': "s' = put (Progress i) s4"
      unfolding worker_file_invoked[OF sop False ws run] s2_def[symmetric]
      by (auto split: sum.splits)
    from after_invocation_Inr[OF a rel] obtain evs oc where
      e: "log_q s4 = log_q s2 @ evs" "outcomes evs = [oc]"
         "ok s4 = ok s2 + (if succeeded oc then 1 else 0)"
         "skipped s4 = skipped s2"
         "failed s4 = failed s2 + (if oc = Failed then 1 else 0)"
         "oc \<noteq> Skipped"
         "total_out_bytes s4 = total_out_bytes s2 + output_bytes oc"
         "\<not> list_ex promotion_raised evs \<longrightarrow> total_in_bytes s4 = total_in_bytes s2 + input_bytes oc"
         "invocations s4 = invocations s2"
      by blast
    show ?thesis
      apply (intro exI[of _ "evs @ [Progress i]"] exI[of _ oc])
      using e apply (simp add: s' put_def s2_def)
      apply blast
      done
  qed
qed

subsection \<open>The whole loop\<close>

lemma tallied_refl: "tallied s [] s"
  by (simp add: tallied_def)

lemma tallied_trans:
  "tallied s evs s' \<Longrightarrow> tallied s' evs' s'' \<Longrightarrow> tallied s (evs @ evs') s''"
  by (auto simp: tallied_def)

lemma worker_file_tallied:
  assumes "worker_file ev in_root out_dir gs preset i pdf s = Inr s'"
  shows "\<exists>evs oc. tallied s evs s' \<and> outcomes evs = [oc]"
proof -
  from worker_file_Inr[OF assms] obtain evs oc where
    "log_q s' = log_q s @ evs" "outcomes evs = [oc]"
    "ok s' = ok s + (if succeeded oc then 1 else 0)"
    "skipped s' = skipped s + (if oc = Skipped then 1 else 0)"
    "failed s' = failed s + (if oc = Failed then 1 else 0)"
    "total_out_bytes s' = total_out_bytes s + output_bytes oc"
    "\<not> list_ex promotion_raised evs \<longrightarrow> total_in_bytes s' = total_in_bytes s + input_bytes oc"
    by blast
  then have "tallied s evs s' \<and> outcomes evs = [oc]"
    by (simp add: tallied_def)
  then show ?thesis by blast
qed

lemma worker_file_raised_tallied:
  assumes "worker_file ev in_root out_dir gs preset i pdf s = Inl (e, s')"
  shows "tallied s [] s'"
  using worker_file_Inl[OF assms] by (simp add: tallied_def)

lemma worker_loop_tallied:
  "\<exists>evs. tallied s evs (final_state (worker_loop ev in_root out_dir gs preset i pdfs s))
     \<and> (case worker_loop ev in_root out_dir gs preset i pdfs s of
           Inr s' \<Rightarrow> length (outcomes evs)
                       = length (takeWhile (\<lambda>j. \<not> stop_is_set ev j) [i..<i + length pdfs])
         | Inl x \<Rightarrow> length (outcomes evs) < length pdfs)"
proof (induction pdfs arbitrary: i s)
  case Nil
  show ?case by (intro exI[of _ "[]"]) (simp add: final_state_def tallied_refl)
next
  case (Cons pdf pdfs)
  have up: "[i..<i + length (pdf # pdfs)] = i # [Suc i..<Suc i + length pdfs]"
    by (simp add: upt_rec)
  show ?case
  proof (cases "stop_is_set ev i")
    case True
    then show ?thesis
      unfolding up by (intro exI[of _ "[]"]) (simp add: final_state_def tallied_refl)
  next
    case False
    show ?thesis
    proof (cases "worker_file ev in_root out_dir gs preset i pdf s")
      case (Inl x)
      obtain e t where x: "x = (e, t)" by (cases x) auto
      from worker_file_raised_tallied[OF Inl[unfolded x]] have "tallied s [] t" .
      with False Inl x show ?thesis
        by (intro exI[of _ "[]"]) (simp add: final_state_def)
    next
      case (Inr t)
      from worker_file_tallied[OF Inr] obtain evs oc where
        t: "tallied s evs t" "outcomes evs = [oc]" by blast
      from Cons.IH[of t "Suc i"] obtain evs' where
        r: "tallied t evs' (final_state (worker_loop ev in_root out_dir gs preset (Suc i) pdfs t))"
           "case worker_loop ev in_root out_dir gs preset (Suc i) pdfs t of
              Inr s' \<Rightarrow> length (outcomes evs')
                       = length (takeWhile (\<lambda>j. \<not> stop_is_set ev j) [Suc i..<Suc i + length pdfs])
            | Inl x \<Rightarrow> length (outcomes evs') < length pdfs"
        by blast
      have w: "worker_loop ev in_root out_dir gs preset i (pdf # pdfs) s
                 = worker_loop ev in_root out_dir gs preset (Suc i) pdfs t"
        using False Inr by simp
      show ?thesis
        unfolding w up
        apply (intro exI[of _ "evs @ evs'"])
        using tallied_trans[OF t(1) r(1)] r(2) t(2) False
        apply (auto split: sum.splits)
        done
    qed
  qed
qed

lemma outcome_partition:
  "length (filter succeeded os) + length (filter (\<lambda>oc. oc = Skipped) os)
     + length (filter (\<lambda>oc. oc = Failed) os) = length os"
proof (induction os)
  case Nil
  show ?case by simp
next
  case (Cons oc os)
  then show ?case by (cases oc) simp_all
qed

subsection \<open>Accounting\<close>

lemma handled_before_stop_le: "handled_before_stop ev n \<le> n"
proof -
  have "length (takeWhile (\<lambda>i. \<not> stop_is_set ev i) [1..<Suc n]) \<le> length [1..<Suc n]"
    by (rule length_takeWhile_le)
  also have "length [1..<Suc n] = n" by (simp del: upt_Suc)
  finally show ?thesis by (simp only: handled_before_stop_def)
qed

lemma outcomes_put_Done [simp]:
  "outcomes (log_q (put (Done a b c d e f) s)) = outcomes (log_q s)"
  by (simp add: put_def)

text \<open>
  The accounting of a run. Every turn of the loop that completes queues exactly one outcome
  and raises exactly one of the three counters by one, the one that outcome names. At
  whatever point a run ends, each counter is the number of outcomes of its kind on the
  queue, so the three counters add up to the number of files that got an outcome. A run
  that reaches its summary has handled the files before the first stop check that found the
  flag set, one outcome each, and succeeded + skipped + failed + the files left unprocessed
  by the stop is the number of enumerated files, which the summary reports. A run ended by
  an exception that no handler catches has fewer outcomes than files.
\<close>

lemma outcome_accounting:
  "(\<forall>i pdf s s'. worker_file ev in_root out_dir gs preset i pdf s = Inr s' \<longrightarrow>
      (\<exists>evs oc. log_q s' = log_q s @ evs \<and> outcomes evs = [oc]
         \<and> ok s' = ok s + (if succeeded oc then 1 else 0)
         \<and> skipped s' = skipped s + (if oc = Skipped then 1 else 0)
         \<and> failed s' = failed s + (if oc = Failed then 1 else 0)))
   \<and> (let r = worker ev in_root out_dir gs pdfs preset f;
           s = final_state r;
           os = outcomes (log_q s);
           k = handled_before_stop ev (length pdfs)
       in ok s = length (filter succeeded os)
          \<and> skipped s = length (filter (\<lambda>oc. oc = Skipped) os)
          \<and> failed s = length (filter (\<lambda>oc. oc = Failed) os)
          \<and> ok s + skipped s + failed s = length os
          \<and> k \<le> length pdfs
          \<and> (case r of
                Inr s' \<Rightarrow>
                  length os = k
                  \<and> ok s + skipped s + failed s + (length pdfs - k) = length pdfs
                  \<and> last (log_q s) = Done (ok s) (skipped s) (failed s) (length pdfs)
                                        (max (total_in_bytes s - total_out_bytes s) 0)
                                        (total_in_bytes s)
              | Inl x \<Rightarrow> length os < length pdfs))"
proof (intro conjI allI impI)
  fix i pdf s s'
  assume "worker_file ev in_root out_dir gs preset i pdf s = Inr s'"
  from worker_file_Inr[OF this]
  show "\<exists>evs oc. log_q s' = log_q s @ evs \<and> outcomes evs = [oc]
         \<and> ok s' = ok s + (if succeeded oc then 1 else 0)
         \<and> skipped s' = skipped s + (if oc = Skipped then 1 else 0)
         \<and> failed s' = failed s + (if oc = Failed then 1 else 0)"
    by blast
next
  define s0 where "s0 = \<lparr>ok = 0, skipped = 0, failed = 0, total_in_bytes = 0, total_out_bytes = 0,
                log_q = [], files = f, invocations = []\<rparr>"
  define lp where "lp = worker_loop ev in_root out_dir gs preset 1 pdfs s0"
  define k where "k = handled_before_stop ev (length pdfs)"
  from worker_loop_tallied[of s0 ev in_root out_dir gs preset 1 pdfs] obtain evs where
    t: "tallied s0 evs (final_state lp)"
    and n: "case lp of
           Inr s' \<Rightarrow> length (outcomes evs)
                       = length (takeWhile (\<lambda>j. \<not> stop_is_set ev j) [1..<1 + length pdfs])
         | Inl x \<Rightarrow> length (outcomes evs) < length pdfs"
    unfolding lp_def by blast
  define r where "r = worker ev in_root out_dir gs pdfs preset f"
  have r: "r = (case lp of
        Inl x \<Rightarrow> Inl x
      | Inr s \<Rightarrow> Inr (put (Done (ok s) (skipped s) (failed s) (length pdfs)
                         (max (total_in_bytes s - total_out_bytes s) 0) (total_in_bytes s)) s))"
    by (simp add: r_def worker_def lp_def s0_def Let_def split: sum.splits)
  have os: "outcomes (log_q (final_state r)) = outcomes evs"
    using t by (auto simp: r final_state_def tallied_def s0_def split: sum.splits prod.splits)
  have c: "ok (final_state r) = length (filter succeeded (outcomes evs))"
      "skipped (final_state r) = length (filter (\<lambda>oc. oc = Skipped) (outcomes evs))"
      "failed (final_state r) = length (filter (\<lambda>oc. oc = Failed) (outcomes evs))"
    using t by (auto simp: r final_state_def tallied_def s0_def put_def split: sum.splits prod.splits)
  have sum: "ok (final_state r) + skipped (final_state r) + failed (final_state r)
               = length (outcomes evs)"
    unfolding c by (rule outcome_partition)
  have kle: "k \<le> length pdfs" unfolding k_def by (rule handled_before_stop_le)
  have fin: "case r of
                Inr s' \<Rightarrow>
                  length (outcomes evs) = k
                  \<and> length (outcomes evs) + (length pdfs - k) = length pdfs
                  \<and> last (log_q (final_state r))
                      = Done (ok (final_state r)) (skipped (final_state r)) (failed (final_state r))
                          (length pdfs)
                          (max (total_in_bytes (final_state r) - total_out_bytes (final_state r)) 0)
                          (total_in_bytes (final_state r))
              | Inl x \<Rightarrow> length (outcomes evs) < length pdfs"
    using n kle
    by (auto simp: r final_state_def k_def handled_before_stop_def put_def split: sum.splits)
  show "let r = worker ev in_root out_dir gs pdfs preset f;
           s = final_state r;
           os = outcomes (log_q s);
           k = handled_before_stop ev (length pdfs)
       in ok s = length (filter succeeded os)
          \<and> skipped s = length (filter (\<lambda>oc. oc = Skipped) os)
          \<and> failed s = length (filter (\<lambda>oc. oc = Failed) os)
          \<and> ok s + skipped s + failed s = length os
          \<and> k \<le> length pdfs
          \<and> (case r of
                Inr s' \<Rightarrow>
                  length os = k
                  \<and> ok s + skipped s + failed s + (length pdfs - k) = length pdfs
                  \<and> last (log_q s) = Done (ok s) (skipped s) (failed s) (length pdfs)
                                        (max (total_in_bytes s - total_out_bytes s) 0)
                                        (total_in_bytes s)
              | Inl x \<Rightarrow> length os < length pdfs)"
    unfolding Let_def r_def[symmetric] k_def[symmetric] os
    using c sum kle fin by (auto split: sum.splits)
qed

lemma ex_whole_run:
  "\<exists>s. worker ex_env [''in''] [''out''] ''/usr/gs'' ex_pdfs ''/ebook'' ex_fs = Inr s
      \<and> ok s = 2 \<and> skipped s = 1 \<and> failed s = 2
      \<and> total_in_bytes s = 7 \<and> total_out_bytes s = 4
      \<and> log_q s =
          [Log (OkMsg [''a.pdf''] 5 2), Progress 1,
           Progress 2, Log (SkipMsg ''c.pdf''),
           Log (FailGsMsg ''d.pdf'' 1), Log (StderrMsg ''no input''), Progress 3,
           Log (FailGsMsg ''.pdf'' 1), Log (StderrMsg ''no input''), Progress 4,
           Log (CopyMsg [''sub'', ''b.pdf''] 3 2), Progress 5,
           Done 2 1 2 5 3 7]
      \<and> map (\<lambda>cmd. cmd ! 3) (invocations s) =
          [''-dPDFSETTINGS=/ebook'', ''-dPDFSETTINGS=/ebook'', ''-dPDFSETTINGS=/ebook'',
           ''-dPDFSETTINGS=/ebook'']"
  by (simp add: worker_simps ex_pdfs_def ex_env_def ex_run_def ex_fs_def fs_simps path_simps
        mkdir_parents.simps strip_def is_space_def)

lemma ex_turn_skip:
  "\<exists>s'. worker_file ex_env [''in''] [''out''] ''/usr/gs'' ''/ebook'' 2 [''in'', ''c.pdf''] ex_state
          = Inr s'
      \<and> log_q s' = [Progress 2, Log (SkipMsg ''c.pdf'')]"
  by (simp add: worker_simps ex_simps fs_simps path_simps mkdir_parents.simps)

lemma outcome_accounting_example:
  "outcomes (log_q (final_state
       (worker ex_env [''in''] [''out''] ''/usr/gs'' ex_pdfs ''/ebook'' ex_fs)))
     = [Compressed 5 2, Skipped, Failed, Failed, CopiedOriginal 2]
   \<and> ok (final_state (worker ex_env [''in''] [''out''] ''/usr/gs'' ex_pdfs ''/ebook'' ex_fs)) = 2
   \<and> skipped (final_state (worker ex_env [''in''] [''out''] ''/usr/gs'' ex_pdfs ''/ebook'' ex_fs)) = 1
   \<and> failed (final_state (worker ex_env [''in''] [''out''] ''/usr/gs'' ex_pdfs ''/ebook'' ex_fs)) = 2
   \<and> handled_before_stop ex_env (length ex_pdfs) = 5
   \<and> last (log_q (final_state
       (worker ex_env [''in''] [''out''] ''/usr/gs'' ex_pdfs ''/ebook'' ex_fs))) = Done 2 1 2 5 3 7
   \<and> skipped (final_state
       (worker_file ex_env [''in''] [''out''] ''/usr/gs'' ''/ebook'' 2 [''in'', ''c.pdf''] ex_state)) = 1
   \<and> ok (final_state
       (worker_file ex_env [''in''] [''out''] ''/usr/gs'' ''/ebook'' 2 [''in'', ''c.pdf''] ex_state)) = 0"
proof -
  from ex_whole_run obtain s where s:
    "worker ex_env [''in''] [''out''] ''/usr/gs'' ex_pdfs ''/ebook'' ex_fs = Inr s"
    "ok s = 2" "skipped s = 1" "failed s = 2" "total_in_bytes s = 7" "total_out_bytes s = 4"
    "log_q s =
          [Log (OkMsg [''a.pdf''] 5 2), Progress 1,
           Progress 2, Log (SkipMsg ''c.pdf''),
           Log (FailGsMsg ''d.pdf'' 1), Log (StderrMsg ''no input''), Progress 3,
           Log (FailGsMsg ''.pdf'' 1), Log (StderrMsg ''no input''), Progress 4,
           Log (CopyMsg [''sub'', ''b.pdf''] 3 2), Progress 5,
           Done 2 1 2 5 3 7]"
    by blast
  from ex_turn_skip obtain t where t:
    "worker_file ex_env [''in''] [''out''] ''/usr/gs'' ''/ebook'' 2 [''in'', ''c.pdf''] ex_state = Inr t"
    "log_q t = [Progress 2, Log (SkipMsg ''c.pdf'')]"
    by blast
  note acc = outcome_accounting[of ex_env "[''in'']" "[''out'']" "''/usr/gs''" "''/ebook''" ex_pdfs ex_fs]
  from acc t(1) obtain evs oc where turn:
    "log_q t = log_q ex_state @ evs" "outcomes evs = [oc]"
    "ok t = ok ex_state + (if succeeded oc then 1 else 0)"
    "skipped t = skipped ex_state + (if oc = Skipped then 1 else 0)"
    by blast
  from turn(1,2) t(2) have "oc = Skipped" by (auto simp: ex_state_def)
  with turn(3,4) have tc: "skipped t = 1" "ok t = 0" by (simp_all add: ex_state_def)
  from acc
  have "length (outcomes (log_q s)) = handled_before_stop ex_env (length ex_pdfs)"
    by (simp add: Let_def s(1) final_state_def)
  then have "handled_before_stop ex_env (length ex_pdfs) = 5"
    by (simp add: s(7))
  then show ?thesis
    by (simp add: s t(1) tc final_state_def)
qed

lemma ex_run_no_sub:
  "\<exists>s. worker ex_env [''in''] [''out''] ''/usr/gs'' ex_pdfs ''/ebook'' ex_fs_no_sub
          = Inl (FileExistsError, s)
      \<and> ok s = 1 \<and> skipped s = 1 \<and> failed s = 2
      \<and> log_q s =
          [Log (OkMsg [''a.pdf''] 5 2), Progress 1,
           Progress 2, Log (SkipMsg ''c.pdf''),
           Log (FailGsMsg ''d.pdf'' 1), Log (StderrMsg ''no input''), Progress 3,
           Log (FailGsMsg ''.pdf'' 1), Log (StderrMsg ''no input''), Progress 4]"
  by (simp add: worker_simps ex_pdfs_def ex_env_def ex_run_def ex_fs_def ex_fs_no_sub_def
        fs_simps path_simps mkdir_parents.simps strip_def is_space_def)

text \<open>
  Claim C4: in every run each file the worker takes up yields exactly one outcome, and at
  the end succeeded + skipped + failed + the files left unprocessed by a stop is the number
  of enumerated files. The code does not keep this when an exception leaves the loop. Here
  five files are enumerated and no stop is requested, but a regular file in the output
  folder has the name of the input's sub-folder: for the fifth file \<open>mkdir\<close> in
  \<open>safe_output_path\<close> (app.py, line 307, outside every \<open>try\<close>) raises
  \<open>FileExistsError\<close>. The run ends there with four outcomes and the counters at 1, 1 and
  2; the fifth file has no outcome, nothing was left unprocessed by a stop, and no summary
  is queued.
\<close>

theorem uncaught_error_ends_run:
  "isl (worker ex_env [''in''] [''out''] ''/usr/gs'' ex_pdfs ''/ebook'' ex_fs_no_sub)
   \<and> fst (projl (worker ex_env [''in''] [''out''] ''/usr/gs'' ex_pdfs ''/ebook'' ex_fs_no_sub))
       = FileExistsError
   \<and> length ex_pdfs = 5
   \<and> handled_before_stop ex_env (length ex_pdfs) = 5
   \<and> outcomes (log_q (final_state
        (worker ex_env [''in''] [''out''] ''/usr/gs'' ex_pdfs ''/ebook'' ex_fs_no_sub)))
       = [Compressed 5 2, Skipped, Failed, Failed]
   \<and> ok (final_state (worker ex_env [''in''] [''out''] ''/usr/gs'' ex_pdfs ''/ebook'' ex_fs_no_sub)) = 1
   \<and> skipped (final_state (worker ex_env [''in''] [''out''] ''/usr/gs'' ex_pdfs ''/ebook'' ex_fs_no_sub)) = 1
   \<and> failed (final_state (worker ex_env [''in''] [''out''] ''/usr/gs'' ex_pdfs ''/ebook'' ex_fs_no_sub)) = 2
   \<and> poll_done (last (log_q (final_state
        (worker ex_env [''in''] [''out''] ''/usr/gs'' ex_pdfs ''/ebook'' ex_fs_no_sub)))) = None"
proof -
  from ex_run_no_sub obtain s where s:
    "worker ex_env [''in''] [''out''] ''/usr/gs'' ex_pdfs ''/ebook'' ex_fs_no_sub
       = Inl (FileExistsError, s)"
    "ok s = 1" "skipped s = 1" "failed s = 2"
    "log_q s =
          [Log (OkMsg [''a.pdf''] 5 2), Progress 1,
           Progress 2, Log (SkipMsg ''c.pdf''),
           Log (FailGsMsg ''d.pdf'' 1), Log (StderrMsg ''no input''), Progress 3,
           Log (FailGsMsg ''.pdf'' 1), Log (StderrMsg ''no input''), Progress 4]"
    by blast
  have l: "length ex_pdfs = 5" by (simp add: ex_pdfs_def)
  have h: "handled_before_stop ex_env 5 = 5"
  proof -
    have tw: "takeWhile (\<lambda>i. \<not> stop_is_set ex_env i) [1..<Suc 5] = [1..<Suc 5]"
      by (rule takeWhile_eq_all_conv[THEN iffD2]) (simp add: ex_env_def)
    show ?thesis
      unfolding handled_before_stop_def tw by (simp del: upt_Suc)
  qed
  show ?thesis
    unfolding l h s(1) using s(2-) by (simp add: final_state_def poll_done_def)
qed

subsection \<open>Stopping\<close>

lemma worker_file_ignores_stop:
  "worker_file (ev\<lparr>stop_is_set := st\<rparr>) in_root out_dir gs preset i pdf s
     = worker_file ev in_root out_dir gs preset i pdf s"
proof -
  have c: "compress_pdf (ev\<lparr>stop_is_set := st\<rparr>) = compress_pdf ev"
    by (intro ext) (simp add: compress_pdf_def)
  have o: "overwrite_get (ev\<lparr>stop_is_set := st\<rparr>) = overwrite_get ev"
    by simp
  show ?thesis
    unfolding worker_file_def c o ..
qed

lemma worker_loop_stop:
  assumes "k < length pdfs"
      and "\<forall>j. i \<le> j \<and> j < i + k \<longrightarrow> \<not> stop_is_set ev j"
      and "stop_is_set ev (i + k)"
  shows "worker_loop ev in_root out_dir gs preset i pdfs s
           = worker_loop (ev\<lparr>stop_is_set := (\<lambda>j. False)\<rparr>) in_root out_dir gs preset i
               (take k pdfs) s"
  using assms
proof (induction pdfs arbitrary: i k s)
  case Nil
  then show ?case by simp
next
  case (Cons pdf pdfs)
  show ?case
  proof (cases k)
    case 0
    with Cons.prems(3) show ?thesis by simp
  next
    case (Suc k')
    from Cons.prems(2) Suc have go: "\<not> stop_is_set ev i" by simp
    have ih: "worker_loop ev in_root out_dir gs preset (Suc i) pdfs t
           = worker_loop (ev\<lparr>stop_is_set := (\<lambda>j. False)\<rparr>) in_root out_dir gs preset (Suc i)
               (take k' pdfs) t" for t
    proof (rule Cons.IH)
      show "k' < length pdfs" using Cons.prems(1) Suc by simp
      show "\<forall>j. Suc i \<le> j \<and> j < Suc i + k' \<longrightarrow> \<not> stop_is_set ev j"
        using Cons.prems(2) Suc by simp
      show "stop_is_set ev (Suc i + k')" using Cons.prems(3) Suc by simp
    qed
    show ?thesis
      using go by (simp add: Suc worker_file_ignores_stop ih split: sum.splits)
  qed
qed

lemma handled_before_stop_eq:
  assumes "k < n" "\<forall>j. 1 \<le> j \<and> j \<le> k \<longrightarrow> \<not> stop_is_set ev j" "stop_is_set ev (Suc k)"
  shows "handled_before_stop ev n = k"
proof -
  have split: "[1..<Suc n] = [1..<Suc k] @ Suc k # [Suc (Suc k)..<Suc n]"
    using assms(1) by (metis Suc_le_mono Suc_lessI less_eq_Suc_le not_less_eq upt_add_eq_append
        upt_conv_Cons le_add1 plus_1_eq_Suc less_imp_le_nat nat_le_iff_add)
  have "takeWhile (\<lambda>i. \<not> stop_is_set ev i) [1..<Suc n] = [1..<Suc k]"
    unfolding split using assms(2,3) by (subst takeWhile_append2) auto
  then show ?thesis by (simp add: handled_before_stop_def del: upt_Suc)
qed


text \<open>
  Claim C8. The stop flag has no part in a turn of the loop: a file that was started is
  handled as if the flag did not exist. When the flag is first found set at the check before
  file \<open>k + 1\<close> (it was requested while file \<open>k\<close> was handled), the loop ends exactly as a
  loop over the first \<open>k\<close> files alone that is never stopped: the same files on disk, the
  same events, counters and byte totals, the same exception if there is one; the run's
  result differs from that of the shorter run only in the number of files its summary
  names. The files after the \<open>k\<close>-th thus get no outcome and add nothing to the totals.
\<close>

theorem stop_semantics:
  assumes "k < length pdfs"
      and "\<forall>j. 1 \<le> j \<and> j \<le> k \<longrightarrow> \<not> stop_is_set ev j"
      and "stop_is_set ev (Suc k)"
  shows "(\<forall>st i pdf s. worker_file (ev\<lparr>stop_is_set := st\<rparr>) in_root out_dir gs preset i pdf s
                          = worker_file ev in_root out_dir gs preset i pdf s)
         \<and> (\<forall>s. worker_loop ev in_root out_dir gs preset 1 pdfs s
                 = worker_loop (ev\<lparr>stop_is_set := (\<lambda>j. False)\<rparr>) in_root out_dir gs preset 1
                     (take k pdfs) s)
         \<and> handled_before_stop ev (length pdfs) = k
         \<and> worker ev in_root out_dir gs pdfs preset f
             = (case worker (ev\<lparr>stop_is_set := (\<lambda>j. False)\<rparr>) in_root out_dir gs (take k pdfs)
                       preset f of
                  Inl x \<Rightarrow> Inl x
                | Inr s \<Rightarrow>
                    Inr (s\<lparr>log_q := butlast (log_q s)
                              @ [Done (ok s) (skipped s) (failed s) (length pdfs)
                                   (max (total_in_bytes s - total_out_bytes s) 0)
                                   (total_in_bytes s)]\<rparr>))"
proof -
  have lp: "worker_loop ev in_root out_dir gs preset 1 pdfs s
                 = worker_loop (ev\<lparr>stop_is_set := (\<lambda>j. False)\<rparr>) in_root out_dir gs preset 1
                     (take k pdfs) s" for s
    by (rule worker_loop_stop) (use assms in auto)
  have hb: "handled_before_stop ev (length pdfs) = k"
    by (rule handled_before_stop_eq) (use assms in auto)
  have w: "worker ev in_root out_dir gs pdfs preset f
             = (case worker (ev\<lparr>stop_is_set := (\<lambda>j. False)\<rparr>) in_root out_dir gs (take k pdfs)
                       preset f of
                  Inl x \<Rightarrow> Inl x
                | Inr s \<Rightarrow>
                    Inr (s\<lparr>log_q := butlast (log_q s)
                              @ [Done (ok s) (skipped s) (failed s) (length pdfs)
                                   (max (total_in_bytes s - total_out_bytes s) 0)
                                   (total_in_bytes s)]\<rparr>))"
    unfolding worker_def Let_def lp
    by (auto simp: put_def split: sum.splits)
  from lp hb w worker_file_ignores_stop show ?thesis by blast
qed

theorem stop_semantics_witness:
  "worker_loop ex_env_stop [''in''] [''out''] ''/usr/gs'' ''/ebook'' 1 ex_pdfs ex_state
     = worker_loop (ex_env_stop\<lparr>stop_is_set := (\<lambda>j. False)\<rparr>) [''in''] [''out''] ''/usr/gs''
         ''/ebook'' 1 (take 2 ex_pdfs) ex_state
   \<and> handled_before_stop ex_env_stop (length ex_pdfs) = 2
   \<and> log_q (final_state (worker ex_env_stop [''in''] [''out''] ''/usr/gs'' ex_pdfs ''/ebook'' ex_fs))
       = [Log (OkMsg [''a.pdf''] 5 2), Progress 1, Progress 2, Log (SkipMsg ''c.pdf''),
          Done 1 1 0 5 3 5]"
proof -
  have h1: "2 < length ex_pdfs" by (simp add: ex_pdfs_def)
  have h2: "\<forall>j. 1 \<le> j \<and> j \<le> 2 \<longrightarrow> \<not> stop_is_set ex_env_stop j"
    by (simp add: ex_env_stop_def ex_env_def)
  have h3: "stop_is_set ex_env_stop (Suc 2)"
    by (simp add: ex_env_stop_def ex_env_def)
  have "\<exists>s. worker (ex_env_stop\<lparr>stop_is_set := (\<lambda>j. False)\<rparr>) [''in''] [''out''] ''/usr/gs''
                 (take 2 ex_pdfs) ''/ebook'' ex_fs = Inr s
             \<and> log_q s = [Log (OkMsg [''a.pdf''] 5 2), Progress 1, Progress 2,
                         Log (SkipMsg ''c.pdf''), Done 1 1 0 2 3 5]
             \<and> ok s = 1 \<and> skipped s = 1 \<and> failed s = 0
             \<and> total_in_bytes s = 5 \<and> total_out_bytes s = 2"
    by (simp add: worker_simps ex_pdfs_def ex_env_stop_def ex_env_def ex_run_def ex_fs_def
          fs_simps path_simps mkdir_parents.simps)
  then obtain s where short:
    "worker (ex_env_stop\<lparr>stop_is_set := (\<lambda>j. False)\<rparr>) [''in''] [''out''] ''/usr/gs''
                 (take 2 ex_pdfs) ''/ebook'' ex_fs = Inr s"
    "log_q s = [Log (OkMsg [''a.pdf''] 5 2), Progress 1, Progress 2,
                         Log (SkipMsg ''c.pdf''), Done 1 1 0 2 3 5]"
    "ok s = 1" "skipped s = 1" "failed s = 0" "total_in_bytes s = 5" "total_out_bytes s = 2"
    by blast
  from stop_semantics[OF h1 h2 h3, of "[''in'']" "[''out'']" "''/usr/gs''" "''/ebook''" ex_fs]
  show ?thesis
    by (simp add: short final_state_def) (simp add: ex_pdfs_def)
qed

subsection \<open>Byte totals\<close>

lemma unlink_if_exists_gone:
  "unlink_if_exists p f = Inr f2 \<Longrightarrow> f2 = f(p := None) \<and> node_at f2 p = None \<and> p \<noteq> []"
  by (auto simp: unlink_if_exists_def unlink_def exists_def node_at_def fun_eq_iff
           split: if_splits option.splits node.splits)

lemma copy2_onto_free:
  assumes "copy2 src dst f = Inr f'" "node_at f dst = None"
  shows "\<exists>b. node_at f src = Some (File b) \<and> f' = f(dst \<mapsto> File b)"
  using assms
  by (auto simp: copy2_def Let_def is_dir_def exists_def node_at_def
           split: if_splits option.splits node.splits)

lemma worker_try_output_size:
  assumes w: "worker_try in_root pdf out_pdf tmp_out s = Inr s'"
      and ne: "out_pdf \<noteq> tmp_out"
  shows "\<exists>oc. outcomes (log_q s') = outcomes (log_q s) @ [oc]
              \<and> stat_size out_pdf (files s') = Inr (output_bytes oc)"
proof -
  from w obtain in_size out_tmp_size where
    st: "stat_size pdf (files s) = Inr in_size" "stat_size tmp_out (files s) = Inr out_tmp_size"
    by (auto simp: worker_try_def split: sum.splits)
  show ?thesis
  proof (cases "out_tmp_size \<ge> in_size \<and> in_size > 0")
    case True
    with w st obtain f2 f3 f4 rel where
      u: "unlink_if_exists out_pdf (files s) = Inr f2"
      and c: "copy2 pdf out_pdf f2 = Inr f3"
      and t: "unlink tmp_out f3 = Inr f4"
      and s': "s' = (put (Log (CopyMsg rel out_tmp_size in_size))
                      (s\<lparr>total_in_bytes := total_in_bytes s + in_size, files := f4,
                         total_out_bytes := total_out_bytes s + in_size\<rparr>))
                    \<lparr>ok := ok s + 1\<rparr>"
      by (auto simp: worker_try_def Let_def put_def split: sum.splits)
    from unlink_if_exists_gone[OF u] have g: "f2 = (files s)(out_pdf := None)"
      "node_at f2 out_pdf = None" "out_pdf \<noteq> []" by blast+
    from copy2_onto_free[OF c g(2)] obtain b where
      nb: "node_at f2 pdf = Some (File b)" and b2: "f3 = f2(out_pdf \<mapsto> File b)" by blast
    from node_at_file[OF nb] have b: "pdf \<noteq> []" "f2 pdf = Some (File b)" by simp_all
    from b(2) g(1) have "files s pdf = Some (File b)" "pdf \<noteq> out_pdf"
      by (auto split: if_splits)
    with b(1) have "in_size = int (length b)"
      using st(1) by (simp add: stat_size_def node_at_def)
    moreover from t have "f4 = f3(tmp_out := None)"
      by (auto simp: unlink_def split: option.splits node.splits)
    ultimately have "stat_size out_pdf f4 = Inr in_size"
      using b2 ne g(3) by (simp add: stat_size_def node_at_def)
    then show ?thesis
      by (intro exI[of _ "CopiedOriginal in_size"]) (simp add: s' put_def)
  next
    case False
    with w st obtain f2 f3 out_size rel where
      "stat_size out_pdf f3 = Inr out_size"
      and s': "s' = (put (Log (OkMsg rel in_size out_size))
                      (s\<lparr>total_in_bytes := total_in_bytes s + in_size, files := f3,
                         total_out_bytes := total_out_bytes s + out_size\<rparr>))
                    \<lparr>ok := ok s + 1\<rparr>"
      by (auto simp: worker_try_def Let_def put_def split: sum.splits)
    then show ?thesis
      by (intro exI[of _ "Compressed in_size out_size"]) (simp add: s' put_def)
  qed
qed

lemma worker_try_total_in:
  "total_in_bytes (final_state (worker_try in_root pdf out_pdf tmp_out s))
     = total_in_bytes s
       + (case stat_size pdf (files s) of
            Inl e \<Rightarrow> 0
          | Inr in_size \<Rightarrow> (case stat_size tmp_out (files s) of Inl e \<Rightarrow> 0 | Inr n \<Rightarrow> in_size))"
  by (auto simp: worker_try_def final_state_def Let_def put_def split: sum.splits if_splits)

lemma after_invocation_total_in:
  "total_in_bytes (final_state (after_invocation in_root pdf out_pdf tmp_out rc err s))
     = total_in_bytes s
       + (if result_test rc tmp_out (files s)
          then (case stat_size pdf (files s) of Inl e \<Rightarrow> 0 | Inr in_size \<Rightarrow> in_size)
          else 0)"
proof (cases "result_test rc tmp_out (files s)")
  case True
  then obtain n where t: "rc = 0" "exists tmp_out (files s)" "stat_size tmp_out (files s) = Inr n" "n > 0"
    by (auto simp: result_test_def split: sum.splits)
  have a: "after_invocation in_root pdf out_pdf tmp_out rc err s =
           (case worker_try in_root pdf out_pdf tmp_out s of
              Inr s' \<Rightarrow> Inr s'
            | Inl (e, s') \<Rightarrow>
                Inr (s'\<lparr>failed := failed s' + 1,
                        log_q := log_q s' @ [Log (FailWriteMsg (name_of pdf) e)],
                        files := unlink_quietly tmp_out (files s')\<rparr>))"
    using t by (simp add: after_invocation_def put_def Let_def split: sum.splits prod.splits)
  have "total_in_bytes (final_state (after_invocation in_root pdf out_pdf tmp_out rc err s))
          = total_in_bytes (final_state (worker_try in_root pdf out_pdf tmp_out s))"
    unfolding a by (simp add: final_state_def split: sum.splits prod.splits)
  then show ?thesis
    using True t(3) by (simp add: worker_try_total_in split: sum.splits)
next
  case False
  then show ?thesis
    by (auto simp: after_invocation_def result_test_def final_state_def put_def Let_def
             split: sum.splits if_splits)
qed

lemma worker_file_input_due:
  "total_in_bytes (final_state (worker_file ev in_root out_dir gs preset i pdf s))
     = total_in_bytes s + input_bytes_due ev in_root out_dir gs preset i pdf s"
proof (cases "safe_output_path out_dir in_root pdf (files s)")
  case (Inl e)
  then show ?thesis
    by (simp add: worker_file_def input_bytes_due_def final_state_def)
next
  case (Inr x)
  obtain out_pdf f1 where x: "x = (out_pdf, f1)" by (cases x) auto
  note sop = Inr[unfolded x]
  show ?thesis
  proof (cases "exists out_pdf f1 \<and> \<not> overwrite_get ev i")
    case True
    then show ?thesis
      using sop by (simp add: worker_file_def input_bytes_due_def final_state_def put_def Let_def)
  next
    case nskip: False
    show ?thesis
    proof (cases "with_suffix out_pdf ''.tmp.pdf''")
      case (Inl e)
      then show ?thesis
        using sop nskip by (auto simp: worker_file_def input_bytes_due_def final_state_def Let_def)
    next
      case ws: (Inr tmp_out)
      show ?thesis
      proof (cases "compress_pdf ev gs pdf tmp_out preset (unlink_quietly tmp_out f1)")
        case (Inl e)
        then show ?thesis
          using sop nskip ws
          by (auto simp: worker_file_def input_bytes_due_def final_state_def Let_def)
      next
        case (Inr y)
        obtain rc out err f3 where y: "y = ((rc, out, err), f3)" by (cases y) auto
        note run = Inr[unfolded y]
        define s2 where "s2 = s\<lparr>invocations := invocations s @ [gs_command gs pdf tmp_out preset],
                                files := f3\<rparr>"
        have d: "input_bytes_due ev in_root out_dir gs preset i pdf s
                   = (if result_test rc tmp_out f3
                      then (case stat_size pdf f3 of Inl e \<Rightarrow> 0 | Inr in_size \<Rightarrow> in_size)
                      else 0)"
          using sop nskip ws run by (auto simp: input_bytes_due_def)
        have "total_in_bytes (final_state (worker_file ev in_root out_dir gs preset i pdf s))
                = total_in_bytes (final_state (after_invocation in_root pdf out_pdf tmp_out rc err s2))"
          unfolding worker_file_invoked[OF sop nskip ws run] s2_def[symmetric]
          by (auto simp: final_state_def put_def split: sum.splits prod.splits)
        then show ?thesis
          unfolding d by (simp add: after_invocation_total_in s2_def)
      qed
    qed
  qed
qed

lemma worker_try_total_out:
  assumes w: "worker_try in_root pdf out_pdf tmp_out s = Inr s'"
      and ne: "out_pdf \<noteq> tmp_out"
  shows "stat_size out_pdf (files s') = Inr (total_out_bytes s' - total_out_bytes s)"
proof -
  from worker_try_Inr[OF w] obtain oc m where
    a: "log_q s' = log_q s @ [Log m]" "outcome_of (Log m) = Some oc"
       "total_out_bytes s' = total_out_bytes s + output_bytes oc"
    by blast
  from worker_try_output_size[OF w ne] obtain oc' where
    b: "outcomes (log_q s') = outcomes (log_q s) @ [oc']"
       "stat_size out_pdf (files s') = Inr (output_bytes oc')"
    by blast
  from a(1,2) b(1) have "oc' = oc" by simp
  with a(3) b(2) show ?thesis by simp
qed

lemma after_invocation_ok_moved:
  assumes a: "after_invocation in_root pdf out_pdf tmp_out rc err s = Inr s'"
      and m: "ok s' \<noteq> ok s"
      and rel: "relative_to pdf in_root = Inr rel"
  shows "worker_try in_root pdf out_pdf tmp_out s = Inr s'"
proof (cases "worker_try in_root pdf out_pdf tmp_out s")
  case (Inr t)
  with a m show ?thesis
    by (auto simp: after_invocation_def put_def Let_def split: sum.splits if_splits bool.splits)
next
  case (Inl x)
  obtain e t where x: "x = (e, t)" by (cases x) auto
  from worker_try_Inl[OF Inl[unfolded x] rel] have "ok t = ok s" by simp
  with a m Inl x show ?thesis
    by (auto simp: after_invocation_def put_def Let_def split: sum.splits if_splits bool.splits)
qed

lemma worker_file_output_due:
  "total_out_bytes (final_state (worker_file ev in_root out_dir gs preset i pdf s))
     = total_out_bytes s + output_bytes_due ev in_root out_dir gs preset i pdf s"
proof (cases "worker_file ev in_root out_dir gs preset i pdf s")
  case (Inl x)
  obtain e t where x: "x = (e, t)" by (cases x) auto
  from worker_file_Inl[OF Inl[unfolded x]] have "total_out_bytes t = total_out_bytes s" by simp
  then show ?thesis
    using Inl x by (simp add: output_bytes_due_def final_state_def)
next
  case (Inr s')
  from worker_file_Inr[OF Inr] obtain evs oc where
    e: "ok s' = ok s + (if succeeded oc then 1 else 0)"
       "total_out_bytes s' = total_out_bytes s + output_bytes oc"
    by blast
  show ?thesis
  proof (cases "ok s' = ok s")
    case True
    with e(1) have "\<not> succeeded oc" by (simp split: if_splits)
    then have "output_bytes oc = 0" by (cases oc) simp_all
    with e(2) True Inr show ?thesis
      by (simp add: output_bytes_due_def final_state_def)
  next
    case moved: False
    from Inr obtain out_pdf f1 where sop: "safe_output_path out_dir in_root pdf (files s) = Inr (out_pdf, f1)"
      by (auto simp: worker_file_def split: sum.splits)
    from safe_output_path_rel[OF sop] obtain rel where rel: "relative_to pdf in_root = Inr rel"
      by blast
    have nskip: "\<not> (exists out_pdf f1 \<and> \<not> overwrite_get ev i)"
    proof
      assume "exists out_pdf f1 \<and> \<not> overwrite_get ev i"
      with Inr sop have "ok s' = ok s"
        by (auto simp: worker_file_def Let_def put_def)
      with moved show False by simp
    qed
    with Inr sop obtain tmp_out rc out err f3 where
      ws: "with_suffix out_pdf ''.tmp.pdf'' = Inr tmp_out"
      and run: "compress_pdf ev gs pdf tmp_out preset (unlink_quietly tmp_out f1) = Inr ((rc, out, err), f3)"
      by (auto simp: worker_file_def Let_def split: sum.splits prod.splits)
    define s2 where "s2 = s\<lparr>invocations := invocations s @ [gs_command gs pdf tmp_out preset],
                          files := f3\<rparr>"
    from Inr obtain s4 where a: "after_invocation in_root pdf out_pdf tmp_out rc err s2 = Inr s4"
      and s': "s' = put (Progress i) s4"
      unfolding worker_file_invoked[OF sop nskip ws run] s2_def[symmetric]
      by (auto split: sum.splits)
    from moved have "ok s4 \<noteq> ok s2" by (simp add: s' put_def s2_def)
    from after_invocation_ok_moved[OF a this rel]
    have t: "worker_try in_root pdf out_pdf tmp_out s2 = Inr s4" .
    from with_suffix_differs[OF ws] have d: "out_pdf \<noteq> tmp_out" by auto
    from worker_try_total_out[OF t d]
    have "stat_size out_pdf (files s') = Inr (total_out_bytes s' - total_out_bytes s)"
      by (simp add: s' put_def s2_def)
    then show ?thesis
      using Inr moved sop by (simp add: output_bytes_due_def final_state_def)
  qed
qed

lemma worker_loop_bytes_due:
  "total_in_bytes (final_state (worker_loop ev in_root out_dir gs preset i pdfs s))
     = total_in_bytes s + sum_list (map fst (bytes_due ev in_root out_dir gs preset i pdfs s))
   \<and> total_out_bytes (final_state (worker_loop ev in_root out_dir gs preset i pdfs s))
     = total_out_bytes s + sum_list (map snd (bytes_due ev in_root out_dir gs preset i pdfs s))"
proof (induction pdfs arbitrary: i s)
  case Nil
  show ?case by (simp add: final_state_def)
next
  case (Cons pdf pdfs)
  show ?case
  proof (cases "stop_is_set ev i")
    case True
    then show ?thesis by (simp add: final_state_def)
  next
    case False
    note fi = worker_file_input_due[of ev in_root out_dir gs preset i pdf s]
    note fo = worker_file_output_due[of ev in_root out_dir gs preset i pdf s]
    show ?thesis
    proof (cases "worker_file ev in_root out_dir gs preset i pdf s")
      case (Inl x)
      with False fi fo show ?thesis
        by (simp add: final_state_def)
    next
      case (Inr t)
      with False fi fo Cons.IH[of "Suc i" t] show ?thesis
        by (simp add: final_state_def)
    qed
  qed
qed

lemma worker_totals:
  "total_in_bytes (final_state (worker ev in_root out_dir gs pdfs preset f))
     = total_in_bytes (final_state (worker_loop ev in_root out_dir gs preset 1 pdfs (fresh_state f)))
   \<and> total_out_bytes (final_state (worker ev in_root out_dir gs pdfs preset f))
     = total_out_bytes (final_state (worker_loop ev in_root out_dir gs preset 1 pdfs (fresh_state f)))"
  by (auto simp: worker_def fresh_state_def final_state_def put_def Let_def split: sum.splits prod.splits)

text \<open>
  Claim C6, as stated, fails: a job whose invocation fails is attempted and not skipped, yet
  its input's size is not added. Here the only file, one byte long, is handed to the tool,
  which exits with 1: the total input stays 0 and the summary reads "n/a".
\<close>

theorem failed_invocation_not_in_total_input:
  "skipped (final_state (worker ex_env [''in''] [''out''] ''/usr/gs'' [[''in'', ''d.pdf'']]
                           ''/ebook'' ex_fs)) = 0
   \<and> invocations (final_state (worker ex_env [''in''] [''out''] ''/usr/gs'' [[''in'', ''d.pdf'']]
                                  ''/ebook'' ex_fs))
       = [gs_command ''/usr/gs'' [''in'', ''d.pdf''] [''out'', ''d.tmp.pdf''] ''/ebook'']
   \<and> stat_size [''in'', ''d.pdf''] ex_fs = Inr 1
   \<and> total_in_bytes (final_state (worker ex_env [''in''] [''out''] ''/usr/gs''
                                     [[''in'', ''d.pdf'']] ''/ebook'' ex_fs)) = 0
   \<and> total_in_bytes (final_state (worker ex_env [''in''] [''out''] ''/usr/gs''
                                     [[''in'', ''d.pdf'']] ''/ebook'' ex_fs)) \<noteq> 1
   \<and> poll_done (last (log_q (final_state (worker ex_env [''in''] [''out''] ''/usr/gs''
                                              [[''in'', ''d.pdf'']] ''/ebook'' ex_fs))))
       = Some ((0, 0, 1, 1), NotApplicable)"
proof -
  have "\<exists>s. worker ex_env [''in''] [''out''] ''/usr/gs'' [[''in'', ''d.pdf'']] ''/ebook'' ex_fs = Inr s
          \<and> skipped s = 0 \<and> total_in_bytes s = 0
          \<and> invocations s = [gs_command ''/usr/gs'' [''in'', ''d.pdf''] [''out'', ''d.tmp.pdf''] ''/ebook'']
          \<and> last (log_q s) = Done 0 0 1 1 0 0"
    by (simp add: worker_simps ex_env_def ex_run_def ex_fs_def fs_simps path_simps
          mkdir_parents.simps strip_def is_space_def)
  then obtain s where s:
    "worker ex_env [''in''] [''out''] ''/usr/gs'' [[''in'', ''d.pdf'']] ''/ebook'' ex_fs = Inr s"
    "skipped s = 0" "total_in_bytes s = 0"
    "invocations s = [gs_command ''/usr/gs'' [''in'', ''d.pdf''] [''out'', ''d.tmp.pdf''] ''/ebook'']"
    "last (log_q s) = Done 0 0 1 1 0 0"
    by blast
  have "stat_size [''in'', ''d.pdf''] ex_fs = Inr 1"
    by (simp add: stat_size_def node_at_def ex_fs_def)
  with s show ?thesis
    by (simp add: final_state_def poll_done_def)
qed

text \<open>
  Claim C6, amended. For every run, however it ends, the total input is the sum of what
  the jobs taken up are due by \<open>input_bytes_due\<close>: the size of the input file, as it is
  when the tool has returned, for every job that is not skipped and whose invocation
  passes the test of the result (exit code 0 and a non-empty temporary output), whether or
  not the promotion of the result then succeeds; nothing for a skipped job and nothing for
  a job whose invocation fails the test. The total output is the sum of what the jobs are
  due by \<open>output_bytes_due\<close>: the size of the file at the mapped output path for every job
  that ends succeeded (the renamed result, or the copied original), nothing for any other
  job. The summary of a run that ends carries saved = max(total_input - total_output, 0),
  and the control surface reports saved / total_input when total_input > 0 and "n/a"
  otherwise.
\<close>

theorem byte_totals:
  "(let r = worker ev in_root out_dir gs pdfs preset f;
        s = final_state r;
        due = bytes_due ev in_root out_dir gs preset 1 pdfs (fresh_state f)
    in total_in_bytes s = sum_list (map fst due)
       \<and> total_out_bytes s = sum_list (map snd due)
       \<and> (\<forall>s'. r = Inr s' \<longrightarrow>
             last (log_q s) = Done (ok s) (skipped s) (failed s) (length pdfs)
                                (max (total_in_bytes s - total_out_bytes s) 0) (total_in_bytes s)
             \<and> poll_done (last (log_q s))
                 = Some ((ok s, skipped s, failed s, length pdfs),
                         (if total_in_bytes s > 0
                          then Saved (of_int (max (total_in_bytes s - total_out_bytes s) 0) / 1000000)
                                     (of_int (max (total_in_bytes s - total_out_bytes s) 0)
                                        / of_int (total_in_bytes s))
                          else NotApplicable))))"
proof -
  define r where "r = worker ev in_root out_dir gs pdfs preset f"
  define s where "s = final_state r"
  define due where "due = bytes_due ev in_root out_dir gs preset 1 pdfs (fresh_state f)"
  define lp where "lp = worker_loop ev in_root out_dir gs preset 1 pdfs (fresh_state f)"
  have r: "r = (case lp of
        Inl x \<Rightarrow> Inl x
      | Inr s \<Rightarrow> Inr (put (Done (ok s) (skipped s) (failed s) (length pdfs)
                         (max (total_in_bytes s - total_out_bytes s) 0) (total_in_bytes s)) s))"
    by (simp add: r_def worker_def lp_def fresh_state_def Let_def split: sum.splits)
  from worker_totals[of ev in_root out_dir gs pdfs preset f]
       worker_loop_bytes_due[of ev in_root out_dir gs preset 1 pdfs "fresh_state f"]
  have a: "total_in_bytes s = sum_list (map fst due)"
    and b: "total_out_bytes s = sum_list (map snd due)"
    by (simp_all add: s_def r_def due_def fresh_state_def)
  have c: "\<forall>s'. r = Inr s' \<longrightarrow>
             last (log_q s) = Done (ok s) (skipped s) (failed s) (length pdfs)
                                (max (total_in_bytes s - total_out_bytes s) 0) (total_in_bytes s)"
    by (auto simp: s_def r final_state_def put_def split: sum.splits)
  have d: "poll_done (Done (ok s) (skipped s) (failed s) (length pdfs)
                                (max (total_in_bytes s - total_out_bytes s) 0) (total_in_bytes s))
           = Some ((ok s, skipped s, failed s, length pdfs),
                         (if total_in_bytes s > 0
                          then Saved (of_int (max (total_in_bytes s - total_out_bytes s) 0) / 1000000)
                                     (of_int (max (total_in_bytes s - total_out_bytes s) 0)
                                        / of_int (total_in_bytes s))
                          else NotApplicable))"
    by (simp add: poll_done_def Let_def)
  have "total_in_bytes s = sum_list (map fst due)
       \<and> total_out_bytes s = sum_list (map snd due)
       \<and> (\<forall>s'. r = Inr s' \<longrightarrow>
             last (log_q s) = Done (ok s) (skipped s) (failed s) (length pdfs)
                                (max (total_in_bytes s - total_out_bytes s) 0) (total_in_bytes s)
             \<and> poll_done (last (log_q s))
                 = Some ((ok s, skipped s, failed s, length pdfs),
                         (if total_in_bytes s > 0
                          then Saved (of_int (max (total_in_bytes s - total_out_bytes s) 0) / 1000000)
                                     (of_int (max (total_in_bytes s - total_out_bytes s) 0)
                                        / of_int (total_in_bytes s))
                          else NotApplicable)))"
    using a b c d by auto
  then show ?thesis
    unfolding Let_def r_def[symmetric] s_def[symmetric] due_def[symmetric] by blast
qed

lemma ex_due_whole_run:
  "bytes_due ex_env [''in''] [''out''] ''/usr/gs'' ''/ebook'' 1 ex_pdfs (fresh_state ex_fs)
     = [(5, 2), (0, 0), (0, 0), (0, 0), (2, 2)]"
  by (simp add: input_bytes_due_def output_bytes_due_def result_test_def
        worker_simps ex_pdfs_def ex_env_def ex_run_def ex_fs_def fresh_state_def
        fs_simps path_simps mkdir_parents.simps strip_def is_space_def)

lemma ex_due_blocked:
  "bytes_due ex_env_overwrite [''in''] [''out''] ''/usr/gs'' ''/ebook'' 1 [[''in'', ''a.pdf'']]
       (fresh_state ex_fs_blocked)
     = [(5, 0)]"
  by (simp add: input_bytes_due_def output_bytes_due_def result_test_def
        worker_simps ex2_simps ex_env_def ex_run_def ex_fs_def
        fs_simps path_simps mkdir_parents.simps strip_def is_space_def)

lemma ex_run_blocked:
  "\<exists>s. worker ex_env_overwrite [''in''] [''out''] ''/usr/gs'' [[''in'', ''a.pdf'']] ''/ebook''
          ex_fs_blocked = Inr s
      \<and> ok s = 0 \<and> skipped s = 0 \<and> failed s = 1
      \<and> log_q s = [Log (FailWriteMsg ''a.pdf'' IsADirectoryError), Progress 1, Done 0 0 1 1 5 5]"
  by (simp add: worker_simps ex2_simps ex_env_def ex_run_def ex_fs_def
        fs_simps path_simps mkdir_parents.simps strip_def is_space_def)

theorem byte_totals_witness:
  "bytes_due ex_env [''in''] [''out''] ''/usr/gs'' ''/ebook'' 1 ex_pdfs (fresh_state ex_fs)
     = [(5, 2), (0, 0), (0, 0), (0, 0), (2, 2)]
   \<and> total_in_bytes (final_state (worker ex_env [''in''] [''out''] ''/usr/gs'' ex_pdfs ''/ebook'' ex_fs))
     = 5 + 2
   \<and> total_out_bytes (final_state (worker ex_env [''in''] [''out''] ''/usr/gs'' ex_pdfs ''/ebook'' ex_fs))
     = 2 + 2
   \<and> poll_done (last (log_q (final_state
         (worker ex_env [''in''] [''out''] ''/usr/gs'' ex_pdfs ''/ebook'' ex_fs))))
       = Some ((2, 1, 2, 5), Saved (3 / 1000000) (3 / 7))
   \<and> bytes_due ex_env_overwrite [''in''] [''out''] ''/usr/gs'' ''/ebook'' 1 [[''in'', ''a.pdf'']]
         (fresh_state ex_fs_blocked)
     = [(5, 0)]
   \<and> total_in_bytes (final_state (worker ex_env_overwrite [''in''] [''out''] ''/usr/gs''
                                     [[''in'', ''a.pdf'']] ''/ebook'' ex_fs_blocked)) = 5
   \<and> total_out_bytes (final_state (worker ex_env_overwrite [''in''] [''out''] ''/usr/gs''
                                      [[''in'', ''a.pdf'']] ''/ebook'' ex_fs_blocked)) = 0
   \<and> poll_done (last (log_q (final_state
         (worker ex_env_overwrite [''in''] [''out''] ''/usr/gs'' [[''in'', ''a.pdf'']] ''/ebook''
            ex_fs_blocked))))
       = Some ((0, 0, 1, 1), Saved (5 / 1000000) 1)"
proof -
  from ex_whole_run obtain s where s:
    "worker ex_env [''in''] [''out''] ''/usr/gs'' ex_pdfs ''/ebook'' ex_fs = Inr s"
    "ok s = 2" "skipped s = 1" "failed s = 2"
    by blast
  from ex_run_blocked obtain t where t:
    "worker ex_env_overwrite [''in''] [''out''] ''/usr/gs'' [[''in'', ''a.pdf'']] ''/ebook''
          ex_fs_blocked = Inr t"
    "ok t = 0" "skipped t = 0" "failed t = 1"
    by blast
  have l: "length ex_pdfs = 5" by (simp add: ex_pdfs_def)
  have fs: "final_state (Inr s) = s" "final_state (Inr t) = t" by (simp_all add: final_state_def)
  note bs = byte_totals[where ev = ex_env and in_root = "[''in'']" and out_dir = "[''out'']"
         and gs = "''/usr/gs''" and pdfs = ex_pdfs and preset = "''/ebook''" and f = ex_fs,
         unfolded Let_def s(1) fs ex_due_whole_run]
  note bt = byte_totals[where ev = ex_env_overwrite and in_root = "[''in'']" and out_dir = "[''out'']"
         and gs = "''/usr/gs''" and pdfs = "[[''in'', ''a.pdf'']]" and preset = "''/ebook''"
         and f = ex_fs_blocked,
         unfolded Let_def t(1) fs ex_due_blocked]
  from bs have s_in: "total_in_bytes s = 7" and s_out: "total_out_bytes s = 4" by simp_all
  from bt have t_in: "total_in_bytes t = 5" and t_out: "total_out_bytes t = 0" by simp_all
  from bs have "poll_done (last (log_q s))
                 = Some ((ok s, skipped s, failed s, length ex_pdfs),
                         (if total_in_bytes s > 0
                          then Saved (of_int (max (total_in_bytes s - total_out_bytes s) 0) / 1000000)
                                     (of_int (max (total_in_bytes s - total_out_bytes s) 0)
                                        / of_int (total_in_bytes s))
                          else NotApplicable))"
    by blast
  then have ps: "poll_done (last (log_q s)) = Some ((2, 1, 2, 5), Saved (3 / 1000000) (3 / 7))"
    unfolding s(2-4) s_in s_out l by simp
  from bt have "poll_done (last (log_q t))
                 = Some ((ok t, skipped t, failed t, length [[''in'', ''a.pdf'']]),
                         (if total_in_bytes t > 0
                          then Saved (of_int (max (total_in_bytes t - total_out_bytes t) 0) / 1000000)
                                     (of_int (max (total_in_bytes t - total_out_bytes t) 0)
                                        / of_int (total_in_bytes t))
                          else NotApplicable))"
    by blast
  then have pt: "poll_done (last (log_q t)) = Some ((0, 0, 1, 1), Saved (5 / 1000000) 1)"
    unfolding t(2-4) t_in t_out by simp
  show ?thesis
    unfolding s(1) t(1) fs ex_due_whole_run ex_due_blocked
    using s_in s_out t_in t_out ps pt by simp
qed

subsection \<open>The preset\<close>
















end
